theory Spec2Isabelle
  imports Complex_Main "HOL-Library.Multiset"
begin

section \<open>The Python bindings of the vector index\<close>

text \<open>
  The module \<^verbatim>\<open>nmslib_vector.cc\<close> keeps one \<open>IndexWrapper\<close> per handle: the stored points, the space and the
  index built over them. The index methods, the spaces and the result queue live in other
  files of the library; here they are the fields of the record \<open>nmslib\<close>, over which every
  definition below is parametric.

  C \<open>int\<close> values (identifiers, \<open>k\<close>, thread counts, type tags) are modelled as \<open>int\<close>: the
  bindings compare and copy them and do no arithmetic on them. A \<open>float\<close> component is
  modelled by the real number it denotes; widening it to a Python float is exact, and the
  narrowing of a Python float to a \<open>float\<close> is the parameter \<open>rnd\<close> of \<open>readVector\<close>.
  Each binding is modelled from the point where \<open>PyArg_ParseTuple\<close> has unpacked its
  arguments, and the Python allocations it makes (\<open>PyList_New\<close>, \<open>PyFloat_FromDouble\<close>,
  \<open>PyInt_FromLong\<close>) are taken to succeed.
\<close>

subsection \<open>Values\<close>

datatype PyObject =
    Py_None
  | PyInt int
  | PyFloat real
  | PyString string
  | PyList "PyObject list"
  | PyIntArray2 "int list list"

text \<open>Every \<open>raise\<close> of the file sets a \<open>ValueError\<close>; one constructor per message.\<close>

datatype PyErr =
    FailedToReadItem
  | ExpectedDataTypeVector
  | UnknownDataType int
  | CannotCreateDataPoint
  | UseGenericBindings
  | UnknownDistType int
  | OrderShouldBeC
  | IdsShouldBe1DimInt32
  | DataShouldBe2DimFloat32
  | QueryOrderShouldBeC
  | QueryShouldBe2DimFloat32
  | IdsDataSizeMismatch nat nat
  | CannotConvertArgToList
  | KShouldBeGE1 int
  | FailedToCreateNumpyArray
  | DataPointIndexOutOfRange nat

text \<open>
  What ends a call other than a returned object: a Python exception, a call through the
  null or the deleted index pointer, or a C++ exception that nothing in the file catches.
  Only after a returned object or a Python exception does control return to the caller;
  an uncaught C++ exception leaves the extension function and ends the process.
\<close>

datatype fault =
    ValueError PyErr
  | NullIndexDereference
  | DeletedIndexUse
  | UncaughtException

record Object =
  obj_id :: int
  label :: int
  data :: "real list"

definition returns_to_caller :: "fault + 'a \<Rightarrow> bool" where
  "returns_to_caller r =
     (case r of
        Inr v \<Rightarrow> True
      | Inl (ValueError e) \<Rightarrow> True
      | Inl f \<Rightarrow> False)"

definition datalength :: "Object \<Rightarrow> nat" where
  "datalength obj = 4 * length (data obj)"

text \<open>
  A numpy array as the bindings read it: the FORTRAN flag, the element type, the number of
  dimensions and the dimensions, and its elements (\<open>ints\<close> of a one-dimensional int32
  array, \<open>rows\<close> of a two-dimensional float32 array, as Python sees them). The bindings
  do not follow the strides of the elements: they read \<open>ids->data\<close> as a packed array of
  \<open>int\<close> (\<open>packed_ints\<close>) and, from the start of row \<open>i\<close>, \<open>data->data + i * strides[0]\<close>,
  the floats that lie packed in memory (\<open>packed_rows ! i\<close>). In a contiguous array these
  are the elements themselves (\<open>contiguous\<close>); in a strided view they are not.
\<close>

record PyArrayObject =
  NPY_FORTRAN :: bool
  type_num :: int
  nd :: nat
  dims :: "nat list"
  ints :: "int list"
  rows :: "real list list"
  packed_ints :: "int list"
  packed_rows :: "real list list"


definition NPY_INT32 :: int where
  "NPY_INT32 = 5"

definition NPY_FLOAT32 :: int where
  "NPY_FLOAT32 = 11"

definition PyArray_DIM :: "PyArrayObject \<Rightarrow> nat \<Rightarrow> nat" where
  "PyArray_DIM a i = dims a ! i"


definition float32_matrix :: "PyArrayObject \<Rightarrow> bool" where
  "float32_matrix a \<longleftrightarrow>
     \<not> NPY_FORTRAN a \<and> type_num a = NPY_FLOAT32 \<and> nd a = 2 \<and> length (dims a) = 2 \<and>
     dims a ! 0 = length (rows a) \<and> list_all (\<lambda>r. length r = dims a ! 1) (rows a)"

definition kDataVector :: int where
  "kDataVector = 1"

definition kDataString :: int where
  "kDataString = 2"

definition kDistFloat :: int where
  "kDistFloat = 4"

definition kDistInt :: int where
  "kDistInt = 5"

subsection \<open>The library behind the bindings\<close>

text \<open>
  The index pointer of a wrapper: null, pointing to a live index object, or still holding
  the address of an object that \<open>delete\<close> has destroyed.
\<close>

datatype 'ix pointer = nullptr | Live 'ix | Deleted

text \<open>
  The factories and the index methods the bindings call (spacefactory.h, methodfactory.h
  and index.h are not among the sources), as parameters. \<open>None\<close> from a factory is the
  exception it throws on an unknown name or a bad parameter. \<open>Index_CreateIndex\<close> and
  \<open>Index_LoadIndex\<close> work on the index object in place: they give the state they leave
  the object in, and \<open>False\<close> when they threw. \<open>Index_Search\<close> gives the (distance, object)
  pairs that the method hands to the query in the order of its traversal.
\<close>

record ('sp, 'ix, 'd) nmslib =
  CreateSpace :: "string \<Rightarrow> string list \<Rightarrow> 'sp option"
  CreateMethod :: "string \<Rightarrow> string \<Rightarrow> 'sp \<Rightarrow> Object list \<Rightarrow> 'ix option"
  Index_CreateIndex :: "'ix \<Rightarrow> string list \<Rightarrow> bool \<times> 'ix"
  Index_LoadIndex :: "'ix \<Rightarrow> string \<Rightarrow> bool \<times> 'ix"
  Index_Search :: "'ix \<Rightarrow> 'sp \<Rightarrow> Object list \<Rightarrow> Object \<Rightarrow> nat \<Rightarrow> ('d \<times> Object) list"

text \<open>
  Modelled from the spec: the result queue \<open>KNNQueue\<close> (knnqueue.h is not among the
  sources), "a bounded max-structure keyed by distance (conceptually a fixed-capacity
  priority queue retaining the k smallest-distance entries seen)". The entries are kept in
  ascending order of distance, so the maximum is the last one.
\<close>

record 'd KNNQueue =
  capacity :: nat
  entries :: "('d \<times> Object) list"

text \<open>
  Modelled from the spec: the operations of \<open>KNNQueue\<close> that the bindings and the searches
  use. \<open>TopObject\<close> and \<open>Pop\<close> read and remove "the current maximum"; \<open>Push\<close> keeps an
  entry while the queue holds fewer than \<open>capacity\<close> entries and afterwards only in exchange
  for a maximum that is farther away.
\<close>

definition Empty :: "'d KNNQueue \<Rightarrow> bool" where
  "Empty q \<longleftrightarrow> entries q = []"

definition TopDistance :: "'d KNNQueue \<Rightarrow> 'd" where
  "TopDistance q = fst (last (entries q))"

definition TopObject :: "'d KNNQueue \<Rightarrow> Object" where
  "TopObject q = snd (last (entries q))"

definition Pop :: "'d KNNQueue \<Rightarrow> 'd KNNQueue" where
  "Pop q = q\<lparr>entries := butlast (entries q)\<rparr>"

definition Push :: "'d::linorder KNNQueue \<Rightarrow> 'd \<times> Object \<Rightarrow> 'd KNNQueue" where
  "Push q e =
     (if length (entries q) < capacity q then q\<lparr>entries := insort_key fst e (entries q)\<rparr>
      else if entries q \<noteq> [] \<and> fst e < TopDistance q
        then q\<lparr>entries := insort_key fst e (butlast (entries q))\<rparr>
      else q)"

text \<open>
  Modelled from the spec: \<open>KNNQuery\<close> (knnquery.h is not among the sources) holds a queue of
  capacity \<open>K\<close>; a search adds what it discovers to that queue, and \<open>Result\<close> is the queue
  after the search.
\<close>

definition KNNQuery_Result ::
  "('sp, 'ix, 'd::linorder) nmslib \<Rightarrow> 'ix \<Rightarrow> 'sp \<Rightarrow> Object list \<Rightarrow> Object \<Rightarrow> nat \<Rightarrow> 'd KNNQueue" where
  "KNNQuery_Result L ix sp dat query K =
     foldl Push \<lparr>capacity = K, entries = []\<rparr> (Index_Search L ix sp dat query K)"

text \<open>The conversion of the \<open>int\<close> argument \<open>k\<close> to the \<open>unsigned\<close> capacity of the query.\<close>

definition unsigned_of_int :: "int \<Rightarrow> nat" where
  "unsigned_of_int k = nat (k mod 2 ^ 32)"

text \<open>The conversion of an \<open>int\<close> to \<open>size_t\<close> in a comparison with a \<open>size_t\<close>.\<close>

definition size_t_of_int :: "int \<Rightarrow> nat" where
  "size_t_of_int k = nat (k mod 2 ^ 64)"

subsection \<open>Reading and writing vectors\<close>

text \<open>
  The conversion of a Python integer to a C \<open>double\<close>: the integer itself when it has at
  most 53 bits, otherwise the nearest multiple of the power of two that leaves 53 bits
  (ties to the even one), and an \<open>OverflowError\<close> when that is \<open>2 ^ 1024\<close> or more.
\<close>

fun bit_width :: "nat \<Rightarrow> nat" where
  "bit_width n = (if n = 0 then 0 else Suc (bit_width (n div 2)))"

declare bit_width.simps [simp del]

definition double_of_int :: "int \<Rightarrow> real option" where
  "double_of_int n =
     (let m = nat \<bar>n\<bar>; w = bit_width m
      in if w \<le> 53 then Some (of_int n)
         else
           (let e = w - 53; q = m div 2 ^ e; r = m mod 2 ^ e;
                q' = (if 2 ^ e < 2 * r \<or> (2 * r = 2 ^ e \<and> odd q) then Suc q else q);
                v = q' * 2 ^ e
            in if 2 ^ 1024 \<le> v then None else Some (of_int (sgn n * int v))))"

text \<open>
  \<open>PyFloat_AsDouble\<close> and \<open>PyString_AsString\<close> of the Python C API: \<open>None\<close> when they set an
  error.
\<close>

fun PyFloat_AsDouble :: "PyObject \<Rightarrow> real option" where
  "PyFloat_AsDouble (PyFloat x) = Some x"
| "PyFloat_AsDouble (PyInt n) = double_of_int n"
| "PyFloat_AsDouble _ = None"

fun PyString_AsString :: "PyObject \<Rightarrow> string option" where
  "PyString_AsString (PyString s) = Some s"
| "PyString_AsString _ = None"

fun readList :: "PyObject list \<Rightarrow> 'a list \<Rightarrow> (PyObject \<Rightarrow> 'a option) \<Rightarrow> PyErr + 'a list" where
  "readList [] z f = Inr z"
| "readList (x # lst) z f =
     (case f x of
        None \<Rightarrow> Inl FailedToReadItem
      | Some v \<Rightarrow> readList lst (z @ [v]) f)"

definition readVector :: "(real \<Rightarrow> real) \<Rightarrow> PyObject \<Rightarrow> int \<Rightarrow> int \<Rightarrow> PyErr + Object" where
  "readVector rnd dat ident dist_type =
     (case dat of
        PyList l \<Rightarrow>
          (case readList l [] (\<lambda>x. map_option rnd (PyFloat_AsDouble x)) of
             Inl e \<Rightarrow> Inl e
           | Inr arr \<Rightarrow> Inr \<lparr>obj_id = ident, label = - 1, data = arr\<rparr>)
      | _ \<Rightarrow> Inl ExpectedDataTypeVector)"

definition writeVector :: "Object \<Rightarrow> PyObject" where
  "writeVector obj = PyList (map PyFloat (take (datalength obj div 4) (data obj)))"

definition NMSLIB_DATA_READERS ::
  "int \<rightharpoonup> ((real \<Rightarrow> real) \<Rightarrow> PyObject \<Rightarrow> int \<Rightarrow> int \<Rightarrow> PyErr + Object)" where
  "NMSLIB_DATA_READERS = [kDataVector \<mapsto> readVector]"

definition NMSLIB_DATA_WRITERS :: "int \<rightharpoonup> (Object \<Rightarrow> PyObject)" where
  "NMSLIB_DATA_WRITERS = [kDataVector \<mapsto> writeVector]"

subsection \<open>IndexWrapper\<close>

record ('sp, 'ix) IndexWrapper =
  dist_type_m :: int
  data_type_m :: int
  space_type_m :: string
  method_name_m :: string
  index_m :: "'ix pointer"
  space_m :: 'sp
  data_m :: "Object list"

definition GetDistType :: "('sp, 'ix) IndexWrapper \<Rightarrow> int" where
  "GetDistType w = dist_type_m w"

definition GetDataType :: "('sp, 'ix) IndexWrapper \<Rightarrow> int" where
  "GetDataType w = data_type_m w"

definition GetDataPointQty :: "('sp, 'ix) IndexWrapper \<Rightarrow> nat" where
  "GetDataPointQty w = length (data_m w)"

definition AddDataPoint :: "('sp, 'ix) IndexWrapper \<Rightarrow> Object \<Rightarrow> ('sp, 'ix) IndexWrapper" where
  "AddDataPoint w z = w\<lparr>data_m := data_m w @ [z]\<rparr>"

text \<open>\<open>data_.at(index)\<close> throws when the index is out of range.\<close>

definition GetDataPoint :: "('sp, 'ix) IndexWrapper \<Rightarrow> nat \<Rightarrow> fault + Object" where
  "GetDataPoint w i = (if i < length (data_m w) then Inr (data_m w ! i) else Inl UncaughtException)"

text \<open>
  \<open>CreateIndex\<close> and \<open>LoadIndex\<close>: the previous index is deleted, the pointer is set to the
  object the factory returns, and the build (the load) runs on that object through the
  pointer. The result says whether an exception left the method, with the wrapper as the
  exception leaves it.
\<close>

definition delete_index :: "('sp, 'ix) IndexWrapper \<Rightarrow> ('sp, 'ix) IndexWrapper" where
  "delete_index w =
     (case index_m w of
        nullptr \<Rightarrow> w
      | _ \<Rightarrow> w\<lparr>index_m := Deleted\<rparr>)"

definition CreateIndex ::
  "('sp, 'ix, 'd) nmslib \<Rightarrow> ('sp, 'ix) IndexWrapper \<Rightarrow> string list \<Rightarrow>
     (fault + unit) \<times> ('sp, 'ix) IndexWrapper" where
  "CreateIndex L w index_params =
     (if index_m w = Deleted then (Inl DeletedIndexUse, w)
      else
        (case CreateMethod L (method_name_m w) (space_type_m w) (space_m w) (data_m w) of
           None \<Rightarrow> (Inl UncaughtException, delete_index w)
         | Some ix \<Rightarrow>
             (case Index_CreateIndex L ix index_params of
                (ok, ix') \<Rightarrow>
                  (if ok then Inr () else Inl UncaughtException, w\<lparr>index_m := Live ix'\<rparr>))))"

definition LoadIndex ::
  "('sp, 'ix, 'd) nmslib \<Rightarrow> ('sp, 'ix) IndexWrapper \<Rightarrow> string \<Rightarrow>
     (fault + unit) \<times> ('sp, 'ix) IndexWrapper" where
  "LoadIndex L w fileName =
     (if index_m w = Deleted then (Inl DeletedIndexUse, w)
      else
        (case CreateMethod L (method_name_m w) (space_type_m w) (space_m w) (data_m w) of
           None \<Rightarrow> (Inl UncaughtException, delete_index w)
         | Some ix \<Rightarrow>
             (case Index_LoadIndex L ix fileName of
                (ok, ix') \<Rightarrow>
                  (if ok then Inr () else Inl UncaughtException, w\<lparr>index_m := Live ix'\<rparr>))))"

text \<open>
  The loop of \<open>KnnQuery\<close> and of each worker of \<open>KnnQueryBatch\<close>:
  \<^verbatim>\<open>while (!res->Empty()) { ids.insert(ids.begin(), res->TopObject()->id()); res->Pop(); }\<close>
\<close>

function drain :: "'d KNNQueue \<Rightarrow> int list \<Rightarrow> int list" where
  "drain res ids = (if Empty res then ids else drain (Pop res) (obj_id (TopObject res) # ids))"
  by pat_completeness auto
termination
  by (relation "measure (\<lambda>(res, ids). length (entries res))") (auto simp: Empty_def Pop_def)

declare drain.simps [simp del]

definition KnnQuery ::
  "('sp, 'ix, 'd::linorder) nmslib \<Rightarrow> ('sp, 'ix) IndexWrapper \<Rightarrow> int \<Rightarrow> Object \<Rightarrow> fault + PyObject" where
  "KnnQuery L w k query =
     (case index_m w of
        nullptr \<Rightarrow> Inl NullIndexDereference
      | Deleted \<Rightarrow> Inl DeletedIndexUse
      | Live ix \<Rightarrow>
          (let res = KNNQuery_Result L ix (space_m w) (data_m w) query (unsigned_of_int k);
               ids = drain res []
           in Inr (PyList (map PyInt ids))))"

subsection \<open>KnnQueryBatch: the worker threads\<close>

text \<open>
  Each thread runs the loop of the lambda. Between two steps of a thread any other thread
  may run; a step is what a thread does without another thread being able to see an
  intermediate state:
  \<^item> \<open>AtLock\<close>: under the mutex, exit when the queue is empty, otherwise take its front;
  \<^item> \<open>Searching i query\<close>: search the index for the query taken and clone the result;
  \<^item> \<open>Draining i res\<close>: one round of the \<open>while\<close> loop, writing to \<open>query_res[i]\<close>;
  \<^item> \<open>Exited\<close>: the thread has left its loop.
  A call through a null or deleted index pointer ends the process (\<open>crashed\<close>).
\<close>

datatype 'd worker = AtLock | Searching nat Object | Draining nat "'d KNNQueue" | Exited

record 'd batch =
  work_queue :: "(nat \<times> Object) list"
  query_res :: "int list list"
  threads :: "'d worker list"
  crashed :: "fault option"

definition batch_start :: "int \<Rightarrow> Object list \<Rightarrow> 'd batch" where
  "batch_start num_threads query_objects =
     \<lparr>work_queue = map (\<lambda>i. (i, query_objects ! i)) [0..<length query_objects],
      query_res = replicate (length query_objects) [],
      threads = replicate (nat num_threads) AtLock,
      crashed = None\<rparr>"

definition thread_step ::
  "('sp, 'ix, 'd::linorder) nmslib \<Rightarrow> ('sp, 'ix) IndexWrapper \<Rightarrow> int \<Rightarrow> nat \<Rightarrow> 'd batch \<Rightarrow> 'd batch" where
  "thread_step L w k t s =
     (if crashed s \<noteq> None \<or> length (threads s) \<le> t then s
      else
        (case threads s ! t of
           AtLock \<Rightarrow>
             (case work_queue s of
                [] \<Rightarrow> s\<lparr>threads := (threads s)[t := Exited]\<rparr>
              | (i, query) # rest \<Rightarrow>
                  s\<lparr>work_queue := rest, threads := (threads s)[t := Searching i query]\<rparr>)
         | Searching i query \<Rightarrow>
             (case index_m w of
                nullptr \<Rightarrow> s\<lparr>crashed := Some NullIndexDereference\<rparr>
              | Deleted \<Rightarrow> s\<lparr>crashed := Some DeletedIndexUse\<rparr>
              | Live ix \<Rightarrow>
                  s\<lparr>threads := (threads s)
                     [t := Draining i
                        (KNNQuery_Result L ix (space_m w) (data_m w) query (unsigned_of_int k))]\<rparr>)
         | Draining i res \<Rightarrow>
             (if Empty res then s\<lparr>threads := (threads s)[t := AtLock]\<rparr>
              else
                s\<lparr>query_res := (query_res s)[i := obj_id (TopObject res) # query_res s ! i],
                  threads := (threads s)[t := Draining i (Pop res)]\<rparr>)
         | Exited \<Rightarrow> s))"

text \<open>
  A schedule is the order in which the threads take their steps, each named by its
  position in \<open>threads\<close>. \<open>KnnQueryBatch\<close> returns once every thread has been joined: under a
  schedule that is too short for that it has no result (\<open>None\<close>).
\<close>

definition run_threads ::
  "('sp, 'ix, 'd::linorder) nmslib \<Rightarrow> ('sp, 'ix) IndexWrapper \<Rightarrow> int \<Rightarrow> nat list \<Rightarrow> 'd batch \<Rightarrow> 'd batch" where
  "run_threads L w k sched s = fold (thread_step L w k) sched s"

definition joined :: "'d batch \<Rightarrow> bool" where
  "joined s \<longleftrightarrow> list_all (\<lambda>x. x = Exited) (threads s)"

definition KnnQueryBatch ::
  "('sp, 'ix, 'd::linorder) nmslib \<Rightarrow> ('sp, 'ix) IndexWrapper \<Rightarrow> int \<Rightarrow> int \<Rightarrow> Object list \<Rightarrow>
     nat list \<Rightarrow> (fault + int list list) option" where
  "KnnQueryBatch L w num_threads k query_objects sched =
     (let s = run_threads L w k sched (batch_start num_threads query_objects)
      in case crashed s of
           Some f \<Rightarrow> Some (Inl f)
         | None \<Rightarrow> if joined s then Some (Inr (query_res s)) else None)"

subsection \<open>The module's functions\<close>

text \<open>
  A function \<open>f_T\<close> is the template function \<open>_f<T>\<close> of the source. A handle is the
  wrapper it points to; a binding returns its result and the wrapper after the call.
\<close>

definition IsDistFloat :: "('sp, 'ix) IndexWrapper \<Rightarrow> bool" where
  "IsDistFloat h \<longleftrightarrow> dist_type_m h = kDistFloat"

definition init_T ::
  "('sp, 'ix, 'd) nmslib \<Rightarrow> int \<Rightarrow> int \<Rightarrow> string \<Rightarrow> string list \<Rightarrow> string \<Rightarrow>
     fault + ('sp, 'ix) IndexWrapper" where
  "init_T L dist_type data_type space_type space_param method_name =
     (case CreateSpace L space_type space_param of
        None \<Rightarrow> Inl UncaughtException
      | Some sp \<Rightarrow>
          Inr \<lparr>dist_type_m = dist_type, data_type_m = data_type, space_type_m = space_type,
               method_name_m = method_name, index_m = nullptr, space_m = sp, data_m = []\<rparr>)"

definition init ::
  "('sp, 'ix, 'd) nmslib \<Rightarrow> string \<Rightarrow> PyObject list \<Rightarrow> string \<Rightarrow> int \<Rightarrow> int \<Rightarrow>
     fault + ('sp, 'ix) IndexWrapper" where
  "init L space_type space_param_list method_name data_type dist_type =
     (case readList space_param_list [] PyString_AsString of
        Inl e \<Rightarrow> Inl (ValueError e)
      | Inr space_param \<Rightarrow>
          (if dist_type = kDistFloat
             then init_T L dist_type data_type space_type space_param method_name
           else if dist_type = kDistInt then Inl (ValueError UseGenericBindings)
           else Inl (ValueError (UnknownDistType dist_type))))"

definition addDataPoint_T ::
  "(real \<Rightarrow> real) \<Rightarrow> ('sp, 'ix) IndexWrapper \<Rightarrow> int \<Rightarrow> PyObject \<Rightarrow>
     (fault + PyObject) \<times> ('sp, 'ix) IndexWrapper" where
  "addDataPoint_T rnd h ident dat =
     (case NMSLIB_DATA_READERS (GetDataType h) of
        None \<Rightarrow> (Inl (ValueError (UnknownDataType (GetDataType h))), h)
      | Some reader \<Rightarrow>
          (case reader rnd dat ident (GetDistType h) of
             Inl e \<Rightarrow> (Inl (ValueError CannotCreateDataPoint), h)
           | Inr z \<Rightarrow> (Inr Py_None, AddDataPoint h z)))"

definition addDataPoint ::
  "(real \<Rightarrow> real) \<Rightarrow> ('sp, 'ix) IndexWrapper \<Rightarrow> int \<Rightarrow> PyObject \<Rightarrow>
     (fault + PyObject) \<times> ('sp, 'ix) IndexWrapper" where
  "addDataPoint rnd h ident dat =
     (if IsDistFloat h then addDataPoint_T rnd h ident dat
      else (Inl (ValueError UseGenericBindings), h))"

definition addDataPointBatch_T ::
  "('sp, 'ix) IndexWrapper \<Rightarrow> PyArrayObject \<Rightarrow> PyArrayObject \<Rightarrow>
     (fault + PyObject) \<times> ('sp, 'ix) IndexWrapper" where
  "addDataPointBatch_T h ids dat =
     (if NPY_FORTRAN dat then (Inl (ValueError OrderShouldBeC), h)
      else if type_num ids \<noteq> NPY_INT32 \<or> nd ids \<noteq> 1
        then (Inl (ValueError IdsShouldBe1DimInt32), h)
      else if type_num dat \<noteq> NPY_FLOAT32 \<or> nd dat \<noteq> 2
        then (Inl (ValueError DataShouldBe2DimFloat32), h)
      else
        (let num_vec = PyArray_DIM dat 0;
             num_dim = PyArray_DIM dat 1
         in if num_vec \<noteq> PyArray_DIM ids 0
              then (Inl (ValueError (IdsDataSizeMismatch (PyArray_DIM ids 0) num_vec)), h)
            else
              (Inr Py_None,
               fold (\<lambda>i w. AddDataPoint w
                        \<lparr>obj_id = packed_ints ids ! i, label = - 1,
                         data = take num_dim (packed_rows dat ! i)\<rparr>)
                 [0..<num_vec] h)))"

definition addDataPointBatch ::
  "('sp, 'ix) IndexWrapper \<Rightarrow> PyArrayObject \<Rightarrow> PyArrayObject \<Rightarrow>
     (fault + PyObject) \<times> ('sp, 'ix) IndexWrapper" where
  "addDataPointBatch h ids dat =
     (if IsDistFloat h then addDataPointBatch_T h ids dat
      else (Inl (ValueError UseGenericBindings), h))"

definition createIndex ::
  "('sp, 'ix, 'd) nmslib \<Rightarrow> ('sp, 'ix) IndexWrapper \<Rightarrow> PyObject list \<Rightarrow>
     (fault + PyObject) \<times> ('sp, 'ix) IndexWrapper" where
  "createIndex L h param_list =
     (case readList param_list [] PyString_AsString of
        Inl e \<Rightarrow> (Inl (ValueError CannotConvertArgToList), h)
      | Inr index_params \<Rightarrow>
          (if IsDistFloat h
             then (case CreateIndex L h index_params of
                     (Inl f, h') \<Rightarrow> (Inl f, h')
                   | (Inr u, h') \<Rightarrow> (Inr Py_None, h'))
           else (Inl (ValueError UseGenericBindings), h)))"

definition loadIndex ::
  "('sp, 'ix, 'd) nmslib \<Rightarrow> ('sp, 'ix) IndexWrapper \<Rightarrow> string \<Rightarrow>
     (fault + PyObject) \<times> ('sp, 'ix) IndexWrapper" where
  "loadIndex L h file_name =
     (if IsDistFloat h
        then (case LoadIndex L h file_name of
                (Inl f, h') \<Rightarrow> (Inl f, h')
              | (Inr u, h') \<Rightarrow> (Inr Py_None, h'))
      else (Inl (ValueError UseGenericBindings), h))"

definition knnQuery_T ::
  "('sp, 'ix, 'd::linorder) nmslib \<Rightarrow> (real \<Rightarrow> real) \<Rightarrow> ('sp, 'ix) IndexWrapper \<Rightarrow> int \<Rightarrow> PyObject \<Rightarrow>
     fault + PyObject" where
  "knnQuery_T L rnd h k dat =
     (case NMSLIB_DATA_READERS (GetDataType h) of
        None \<Rightarrow> Inl (ValueError (UnknownDataType (GetDataType h)))
      | Some reader \<Rightarrow>
          (case reader rnd dat 0 (GetDistType h) of
             Inl e \<Rightarrow> Inl (ValueError e)
           | Inr query_obj \<Rightarrow> KnnQuery L h k query_obj))"

definition knnQuery ::
  "('sp, 'ix, 'd::linorder) nmslib \<Rightarrow> (real \<Rightarrow> real) \<Rightarrow> ('sp, 'ix) IndexWrapper \<Rightarrow> int \<Rightarrow> PyObject \<Rightarrow>
     (fault + PyObject) \<times> ('sp, 'ix) IndexWrapper" where
  "knnQuery L rnd h k dat =
     (if k < 1 then (Inl (ValueError (KShouldBeGE1 k)), h)
      else if IsDistFloat h then (knnQuery_T L rnd h k dat, h)
      else (Inl (ValueError UseGenericBindings), h))"

text \<open>
  \<open>PyArray_FromDims(2, dims, PyArray_INT)\<close> of numpy's C API: no array for a negative
  dimension, otherwise an array of the given shape with every element zero.
\<close>

definition PyArray_FromDims :: "int \<Rightarrow> int \<Rightarrow> int list list option" where
  "PyArray_FromDims d0 d1 =
     (if d0 < 0 \<or> d1 < 0 then None else Some (replicate (nat d0) (replicate (nat d1) 0)))"

text \<open>
  The loops that copy the results into the array:
  \<^verbatim>\<open>for (i = 0; i < query_res.size(); ++i)
    for (j = 0; j < query_res[i].size() && j < k; ++j) ret[i][j] = query_res[i][j];\<close>
\<close>

definition copy_row :: "int list \<Rightarrow> int \<Rightarrow> int list \<Rightarrow> int list" where
  "copy_row res_i k ret_i =
     fold (\<lambda>j r. r[j := res_i ! j]) [0..<min (length res_i) (size_t_of_int k)] ret_i"

definition copy_rows :: "int list list \<Rightarrow> int \<Rightarrow> int list list \<Rightarrow> int list list" where
  "copy_rows res k ret =
     fold (\<lambda>i r. r[i := copy_row (res ! i) k (r ! i)]) [0..<length res] ret"

text \<open>The query objects \<open>_knnQueryBatch\<close> makes of the rows of the array.\<close>

definition query_objects_of :: "PyArrayObject \<Rightarrow> Object list" where
  "query_objects_of dat =
     (let num_vec = PyArray_DIM dat 0;
          num_dim = PyArray_DIM dat 1
      in map (\<lambda>i. \<lparr>obj_id = 0, label = - 1, data = take num_dim (packed_rows dat ! i)\<rparr>)
           [0..<num_vec])"

definition knnQueryBatch_T ::
  "('sp, 'ix, 'd::linorder) nmslib \<Rightarrow> ('sp, 'ix) IndexWrapper \<Rightarrow> int \<Rightarrow> int \<Rightarrow> PyArrayObject \<Rightarrow>
     nat list \<Rightarrow> (fault + PyObject) option" where
  "knnQueryBatch_T L h num_threads k dat sched =
     (if NPY_FORTRAN dat then Some (Inl (ValueError QueryOrderShouldBeC))
      else if type_num dat \<noteq> NPY_FLOAT32 \<or> nd dat \<noteq> 2
        then Some (Inl (ValueError QueryShouldBe2DimFloat32))
      else
        (let num_vec = PyArray_DIM dat 0;
             query_objects = query_objects_of dat
         in case KnnQueryBatch L h num_threads k query_objects sched of
              None \<Rightarrow> None
            | Some (Inl f) \<Rightarrow> Some (Inl f)
            | Some (Inr res) \<Rightarrow>
                (case PyArray_FromDims (int num_vec) k of
                   None \<Rightarrow> Some (Inl (ValueError FailedToCreateNumpyArray))
                 | Some ret \<Rightarrow> Some (Inr (PyIntArray2 (copy_rows res k ret))))))"

definition knnQueryBatch ::
  "('sp, 'ix, 'd::linorder) nmslib \<Rightarrow> ('sp, 'ix) IndexWrapper \<Rightarrow> int \<Rightarrow> int \<Rightarrow> PyArrayObject \<Rightarrow>
     nat list \<Rightarrow> ((fault + PyObject) \<times> ('sp, 'ix) IndexWrapper) option" where
  "knnQueryBatch L h num_threads k dat sched =
     (if k < 1 then Some (Inl (ValueError (KShouldBeGE1 k)), h)
      else if IsDistFloat h
        then map_option (\<lambda>r. (r, h)) (knnQueryBatch_T L h num_threads k dat sched)
      else Some (Inl (ValueError UseGenericBindings), h))"

definition getDataPoint_T ::
  "('sp, 'ix) IndexWrapper \<Rightarrow> int \<Rightarrow> fault + PyObject" where
  "getDataPoint_T h ident =
     (if ident < 0 \<or> GetDataPointQty h \<le> nat ident
        then Inl (ValueError (DataPointIndexOutOfRange (GetDataPointQty h)))
      else
        (case NMSLIB_DATA_WRITERS (GetDataType h) of
           None \<Rightarrow> Inl (ValueError (UnknownDataType (GetDataType h)))
         | Some writer \<Rightarrow>
             (case GetDataPoint h (nat ident) of
                Inl f \<Rightarrow> Inl f
              | Inr obj \<Rightarrow> Inr (writer obj))))"

definition getDataPoint ::
  "('sp, 'ix) IndexWrapper \<Rightarrow> int \<Rightarrow> (fault + PyObject) \<times> ('sp, 'ix) IndexWrapper" where
  "getDataPoint h ident =
     (if IsDistFloat h then (getDataPoint_T h ident, h)
      else (Inl (ValueError UseGenericBindings), h))"

definition getDataPointQty_T :: "('sp, 'ix) IndexWrapper \<Rightarrow> fault + PyObject" where
  "getDataPointQty_T h = Inr (PyInt (int (GetDataPointQty h)))"

definition getDataPointQty ::
  "('sp, 'ix) IndexWrapper \<Rightarrow> (fault + PyObject) \<times> ('sp, 'ix) IndexWrapper" where
  "getDataPointQty h =
     (if IsDistFloat h then (getDataPointQty_T h, h)
      else (Inl (ValueError UseGenericBindings), h))"

subsection \<open>A small library instance\<close>

text \<open>
  An instance of \<open>nmslib\<close> on which the definitions can be evaluated: one space (squared
  Euclidean distance), one method that scans the stored points in order and hands every
  one of them to the query, a build that rejects every parameter and a load that knows one
  file; a build or load that fails leaves the index object half built.
\<close>

datatype seq_index = Constructed | HalfBuilt | Built

definition l2sqr :: "real list \<Rightarrow> real list \<Rightarrow> real" where
  "l2sqr a b = sum_list (map (\<lambda>(x, y). (x - y) * (x - y)) (zip a b))"

definition seq_lib :: "(unit, seq_index, real) nmslib" where
  "seq_lib =
     \<lparr>CreateSpace = (\<lambda>name params. if name = ''l2'' then Some () else None),
      CreateMethod = (\<lambda>name space_type sp dat. if name = ''seq_search'' then Some Constructed else None),
      Index_CreateIndex = (\<lambda>ix params. if params = [] then (True, Built) else (False, HalfBuilt)),
      Index_LoadIndex = (\<lambda>ix file. if file = ''index.bin'' then (True, Built) else (False, HalfBuilt)),
      Index_Search = (\<lambda>ix sp dat query K. map (\<lambda>obj. (l2sqr (data obj) (data query), obj)) dat)\<rparr>"

definition fresh_handle :: "int \<Rightarrow> (unit, seq_index) IndexWrapper" where
  "fresh_handle data_type =
     \<lparr>dist_type_m = kDistFloat, data_type_m = data_type, space_type_m = ''l2'',
      method_name_m = ''seq_search'', index_m = nullptr, space_m = (), data_m = []\<rparr>"

definition built_handle :: "(unit, seq_index) IndexWrapper" where
  "built_handle =
     \<lparr>dist_type_m = kDistFloat, data_type_m = kDataVector, space_type_m = ''l2'',
      method_name_m = ''seq_search'', index_m = Live Built, space_m = (),
      data_m = [\<lparr>obj_id = 7, label = - 1, data = [0]\<rparr>,
                \<lparr>obj_id = 8, label = - 1, data = [1]\<rparr>]\<rparr>"

definition tied_handle :: "(unit, seq_index) IndexWrapper" where
  "tied_handle =
     \<lparr>dist_type_m = kDistFloat, data_type_m = kDataVector, space_type_m = ''l2'',
      method_name_m = ''seq_search'', index_m = Live Built, space_m = (),
      data_m = [\<lparr>obj_id = 7, label = - 1, data = [0]\<rparr>,
                \<lparr>obj_id = 7, label = - 1, data = [1]\<rparr>,
                \<lparr>obj_id = 8, label = - 1, data = [- 1]\<rparr>]\<rparr>"

definition query_at :: "real \<Rightarrow> Object" where
  "query_at x = \<lparr>obj_id = 0, label = - 1, data = [x]\<rparr>"

definition int32_array :: "int list \<Rightarrow> PyArrayObject" where
  "int32_array xs =
     \<lparr>NPY_FORTRAN = False, type_num = NPY_INT32, nd = 1, dims = [length xs], ints = xs, rows = [],
      packed_ints = xs, packed_rows = []\<rparr>"

definition float32_array :: "nat \<Rightarrow> real list list \<Rightarrow> PyArrayObject" where
  "float32_array num_dim rs =
     \<lparr>NPY_FORTRAN = False, type_num = NPY_FLOAT32, nd = 2, dims = [length rs, num_dim],
      ints = [], rows = rs, packed_ints = [], packed_rows = rs\<rparr>"


subsection \<open>Invariants of a running batch\<close>

text \<open>
  The predicates used below to reason about every schedule. \<open>search_of\<close> is the queue a
  search of the live index returns for a query. \<open>held\<close> is the position a thread is working
  on. \<open>batch_inv R qs n\<close> describes a state reached from \<open>batch_start\<close> for the queries
  \<open>qs\<close> when the first \<open>n\<close> of them have been taken from the queue: a position nobody
  holds any more has its final list, a position held by a thread is held by no other, and
  the list under construction and the thread's queue will together give the final list.
  \<open>batch_cost\<close> counts the steps left. \<open>null_inv\<close> describes the states reached when the
  index pointer is null.
\<close>

definition held :: "'d worker \<Rightarrow> nat option" where
  "held x = (case x of Searching i query \<Rightarrow> Some i | Draining i res \<Rightarrow> Some i | _ \<Rightarrow> None)"

definition worker_ok ::
  "(Object \<Rightarrow> 'd KNNQueue) \<Rightarrow> Object list \<Rightarrow> nat \<Rightarrow> int list list \<Rightarrow> 'd worker \<Rightarrow> bool" where
  "worker_ok R qs n res x =
     (case x of
        Searching i query \<Rightarrow> i < n \<and> query = qs ! i \<and> res ! i = []
      | Draining i r \<Rightarrow> i < n \<and> drain r (res ! i) = drain (R (qs ! i)) []
      | _ \<Rightarrow> True)"

definition batch_inv ::
  "(Object \<Rightarrow> 'd KNNQueue) \<Rightarrow> Object list \<Rightarrow> nat \<Rightarrow> 'd batch \<Rightarrow> bool" where
  "batch_inv R qs n s \<longleftrightarrow>
     crashed s = None \<and> n \<le> length qs \<and> length (query_res s) = length qs \<and>
     work_queue s = map (\<lambda>i. (i, qs ! i)) [n..<length qs] \<and>
     (\<forall>i. n \<le> i \<and> i < length qs \<longrightarrow> query_res s ! i = []) \<and>
     (\<forall>t < length (threads s). worker_ok R qs n (query_res s) (threads s ! t)) \<and>
     (\<forall>t < length (threads s). \<forall>u < length (threads s).
        held (threads s ! t) = held (threads s ! u) \<longrightarrow> t = u \<or> held (threads s ! t) = None) \<and>
     (\<forall>i < n. (\<forall>t < length (threads s). held (threads s ! t) \<noteq> Some i) \<longrightarrow>
        query_res s ! i = drain (R (qs ! i)) []) \<and>
     ((\<exists>t < length (threads s). threads s ! t = Exited) \<longrightarrow> n = length qs)"

definition search_of ::
  "('sp, 'ix, 'd::linorder) nmslib \<Rightarrow> 'ix \<Rightarrow> ('sp, 'ix) IndexWrapper \<Rightarrow> int \<Rightarrow> Object \<Rightarrow> 'd KNNQueue" where
  "search_of L ix w k query = KNNQuery_Result L ix (space_m w) (data_m w) query (unsigned_of_int k)"

definition worker_cost :: "(Object \<Rightarrow> 'd KNNQueue) \<Rightarrow> 'd worker \<Rightarrow> nat" where
  "worker_cost R x =
     (case x of
        AtLock \<Rightarrow> 1
      | Searching i query \<Rightarrow> 3 + length (entries (R query))
      | Draining i r \<Rightarrow> 2 + length (entries r)
      | Exited \<Rightarrow> 0)"

definition batch_cost :: "(Object \<Rightarrow> 'd KNNQueue) \<Rightarrow> 'd batch \<Rightarrow> nat" where
  "batch_cost R s =
     sum_list (map (worker_cost R) (threads s)) +
     sum_list (map (\<lambda>item. 3 + length (entries (R (snd item)))) (work_queue s))"

definition searching :: "'d worker \<Rightarrow> bool" where
  "searching x = (case x of Searching i query \<Rightarrow> True | _ \<Rightarrow> False)"

definition null_inv :: "Object list \<Rightarrow> 'd batch \<Rightarrow> bool" where
  "null_inv qs s \<longleftrightarrow>
     (crashed s = None \<or> crashed s = Some NullIndexDereference) \<and>
     (crashed s = None \<longrightarrow>
        (work_queue s = map (\<lambda>i. (i, qs ! i)) [0..<length qs] \<or>
         (\<exists>t < length (threads s). searching (threads s ! t))) \<and>
        ((\<exists>t < length (threads s). threads s ! t = Exited) \<longrightarrow> work_queue s = []))"

section \<open>Properties\<close>

subsection \<open>Reading, writing and copying\<close>

lemma readList_floats:
  "readList (map PyFloat v) z (\<lambda>x. map_option rnd (PyFloat_AsDouble x)) = Inr (z @ map rnd v)"
  by (induction v arbitrary: z) auto

lemma readVector_floats:
  "readVector rnd (PyList (map PyFloat v)) ident dt =
     Inr \<lparr>obj_id = ident, label = - 1, data = map rnd v\<rparr>"
  by (simp add: readVector_def readList_floats)

lemma writeVector_data: "writeVector obj = PyList (map PyFloat (data obj))"
  by (simp add: writeVector_def datalength_def)

lemma init_handle:
  "init L space_type params method_name data_type dist_type = Inr h \<Longrightarrow>
     dist_type_m h = kDistFloat \<and> data_type_m h = data_type \<and> index_m h = nullptr \<and> data_m h = []"
  by (auto simp: init_def init_T_def split: sum.splits if_splits option.splits)



lemma fold_copy_prefix:
  "m \<le> length xs \<Longrightarrow> m \<le> length r \<Longrightarrow>
     fold (\<lambda>j r. r[j := xs ! j]) [0..<m] r = take m xs @ drop m r"
proof (induction m)
  case 0
  then show ?case by simp
next
  case (Suc m)
  then have "fold (\<lambda>j r. r[j := xs ! j]) [0..<Suc m] r = (take m xs @ drop m r)[m := xs ! m]"
    by simp
  also have "\<dots> = take m xs @ (drop m r)[0 := xs ! m]"
    using Suc.prems by (simp add: list_update_append)
  also have "\<dots> = take m xs @ xs ! m # drop (Suc m) r"
    using Suc.prems by (simp add: Cons_nth_drop_Suc [symmetric])
  also have "\<dots> = take (Suc m) xs @ drop (Suc m) r"
    using Suc.prems by (simp add: take_Suc_conv_app_nth)
  finally show ?case .
qed

lemma copy_row_zero:
  assumes "0 \<le> k" "k < 2 ^ 64"
  shows "copy_row ids k (replicate (nat k) 0) = take (nat k) ids @ replicate (nat k - length ids) 0"
proof -
  have sz: "size_t_of_int k = nat k"
    using assms by (simp add: size_t_of_int_def)
  have "copy_row ids k (replicate (nat k) 0) =
      take (min (length ids) (nat k)) ids @ drop (min (length ids) (nat k)) (replicate (nat k) 0)"
    unfolding copy_row_def sz by (rule fold_copy_prefix) simp_all
  then show ?thesis
    by (simp add: min_def)
qed

lemma fold_rows_prefix:
  "n \<le> length ret \<Longrightarrow>
     fold (\<lambda>i r. r[i := f i (r ! i)]) [0..<n] ret = map (\<lambda>i. f i (ret ! i)) [0..<n] @ drop n ret"
proof (induction n)
  case 0
  then show ?case by simp
next
  case (Suc n)
  let ?done = "map (\<lambda>i. f i (ret ! i)) [0..<n]"
  have "fold (\<lambda>i r. r[i := f i (r ! i)]) [0..<Suc n] ret =
      (?done @ drop n ret)[n := f n ((?done @ drop n ret) ! n)]"
    using Suc by simp
  also have "(?done @ drop n ret) ! n = ret ! n"
    using Suc.prems by (simp add: nth_append)
  also have "(?done @ drop n ret)[n := f n (ret ! n)] = ?done @ (drop n ret)[0 := f n (ret ! n)]"
    by (simp add: list_update_append)
  also have "\<dots> = ?done @ f n (ret ! n) # drop (Suc n) ret"
    using Suc.prems by (simp add: Cons_nth_drop_Suc [symmetric])
  finally show ?case by simp
qed

lemma copy_rows_zero:
  assumes "0 \<le> k" "k < 2 ^ 64"
  shows "copy_rows res k (replicate (length res) (replicate (nat k) 0)) =
    map (\<lambda>ids. take (nat k) ids @ replicate (nat k - length ids) 0) res"
proof -
  let ?pad = "\<lambda>ids. take (nat k) ids @ replicate (nat k - length ids) (0::int)"
  have "copy_rows res k (replicate (length res) (replicate (nat k) 0)) =
      map (\<lambda>i. copy_row (res ! i) k (replicate (length res) (replicate (nat k) 0) ! i))
        [0..<length res]"
    unfolding copy_rows_def by (subst fold_rows_prefix) simp_all
  also have "\<dots> = map (\<lambda>i. ?pad (res ! i)) [0..<length res]"
    using assms by (simp add: copy_row_zero)
  also have "\<dots> = map ?pad res"
    by (rule nth_equalityI) simp_all
  finally show ?thesis .
qed

lemma copy_rows_empty:
  assumes "n \<le> length ret"
  shows "copy_rows (replicate n []) k ret = ret"
proof -
  have "copy_rows (replicate n []) k ret =
      map (\<lambda>i. copy_row (replicate n [] ! i) k (ret ! i)) [0..<n] @ drop n ret"
    unfolding copy_rows_def using assms by (subst fold_rows_prefix) simp_all
  also have "map (\<lambda>i. copy_row (replicate n [] ! i) k (ret ! i)) [0..<n] = map (\<lambda>i. ret ! i) [0..<n]"
    by (simp add: copy_row_def)
  also have "\<dots> = take n ret"
    using assms by (intro nth_equalityI) simp_all
  finally show ?thesis by simp
qed

subsection \<open>The threads of a batch\<close>

lemma thread_step_length_res: "length (query_res (thread_step L w k t s)) = length (query_res s)"
  by (simp add: thread_step_def split: worker.splits list.splits pointer.splits)

lemma run_threads_length_res:
  "length (query_res (run_threads L w k sched s)) = length (query_res s)"
  unfolding run_threads_def
  by (induction sched arbitrary: s) (simp_all add: thread_step_length_res)

lemma KnnQueryBatch_length:
  "KnnQueryBatch L w num_threads k qs sched = Some (Inr res) \<Longrightarrow> length res = length qs"
  by (auto simp: KnnQueryBatch_def Let_def run_threads_length_res batch_start_def
      split: option.splits if_splits)

lemma length_query_objects_of: "length (query_objects_of dat) = PyArray_DIM dat 0"
  by (simp add: query_objects_of_def)

lemma run_threads_none: "threads s = [] \<Longrightarrow> run_threads L w k sched s = s"
  unfolding run_threads_def
  by (induction sched) (simp_all add: thread_step_def)

lemma unsigned_of_int_nat: "0 \<le> k \<Longrightarrow> k < 2 ^ 31 \<Longrightarrow> unsigned_of_int k = nat k"
  by (simp add: unsigned_of_int_def)

subsection \<open>The result queue\<close>

lemma drain_entries: "drain res ids = map (\<lambda>e. obj_id (snd e)) (entries res) @ ids"
proof (induction res ids rule: drain.induct)
  case (1 res ids)
  show ?case
  proof (cases "Empty res")
    case True
    then show ?thesis by (simp add: drain.simps [of res ids] Empty_def)
  next
    case False
    then have ne: "entries res \<noteq> []"
      by (simp add: Empty_def)
    have "drain res ids = drain (Pop res) (obj_id (TopObject res) # ids)"
      using False by (simp add: drain.simps [of res ids])
    also have "\<dots> = map (\<lambda>e. obj_id (snd e)) (entries (Pop res)) @ obj_id (TopObject res) # ids"
      using 1 False by simp
    also have "\<dots> = map (\<lambda>e. obj_id (snd e)) (butlast (entries res) @ [last (entries res)]) @ ids"
      by (simp add: Pop_def TopObject_def)
    also have "butlast (entries res) @ [last (entries res)] = entries res"
      using ne by simp
    finally show ?thesis .
  qed
qed

lemma mset_butlast_subset: "mset (butlast xs) \<subseteq># mset xs"
proof (cases "xs = []")
  case True
  then show ?thesis by simp
next
  case False
  then have "mset xs = mset (butlast xs @ [last xs])"
    by simp
  then show ?thesis
    by (simp del: append_butlast_last_id)
qed

lemma capacity_Push: "capacity (Push q e) = capacity q"
  by (simp add: Push_def)

lemma sorted_Push: "sorted (map fst (entries q)) \<Longrightarrow> sorted (map fst (entries (Push q e)))"
  by (simp add: Push_def sorted_insort_key map_butlast sorted_butlast)

lemma length_Push:
  assumes "length (entries q) \<le> capacity q"
  shows "length (entries (Push q e)) = min (capacity q) (Suc (length (entries q)))"
proof (cases "length (entries q) < capacity q")
  case True
  then show ?thesis
    by (simp add: Push_def)
next
  case False
  with assms have eq: "length (entries q) = capacity q"
    by simp
  have "length (entries (Push q e)) = length (entries q)"
    using False by (cases "entries q") (simp_all add: Push_def)
  then show ?thesis
    using eq by simp
qed

lemma mset_Push: "mset (entries (Push q e)) \<subseteq># add_mset e (mset (entries q))"
proof -
  have "mset (butlast (entries q)) \<subseteq># mset (entries q)"
    by (rule mset_butlast_subset)
  then show ?thesis
    by (auto simp: Push_def mset_insort intro: subset_mset.order_trans)
qed

lemma foldl_Push:
  "sorted (map fst (entries q)) \<Longrightarrow> length (entries q) \<le> capacity q \<Longrightarrow>
     sorted (map fst (entries (foldl Push q cs))) \<and>
     length (entries (foldl Push q cs)) = min (capacity q) (length (entries q) + length cs) \<and>
     mset (entries (foldl Push q cs)) \<subseteq># mset (entries q) + mset cs"
proof (induction cs arbitrary: q)
  case Nil
  then show ?case by simp
next
  case (Cons c cs)
  have s: "sorted (map fst (entries (Push q c)))"
    using Cons.prems(1) by (rule sorted_Push)
  have l: "length (entries (Push q c)) = min (capacity q) (Suc (length (entries q)))"
    using Cons.prems(2) by (rule length_Push)
  then have l': "length (entries (Push q c)) \<le> capacity (Push q c)"
    by (simp add: capacity_Push)
  note ih = Cons.IH [OF s l']
  have "mset (entries (foldl Push (Push q c) cs)) \<subseteq># mset (entries (Push q c)) + mset cs"
    using ih by simp
  also have "\<dots> \<subseteq># add_mset c (mset (entries q)) + mset cs"
    using mset_Push [of q c] by (simp add: subset_mset.add_right_mono del: union_mset_add_mset_left)
  finally have m: "mset (entries (foldl Push (Push q c) cs)) \<subseteq># mset (entries q) + mset (c # cs)"
    by simp
  show ?case
    using ih l m by (simp add: capacity_Push min_def)
qed

lemma KNNQuery_Result_queue:
  "sorted (map fst (entries (KNNQuery_Result L ix sp dat query K))) \<and>
   length (entries (KNNQuery_Result L ix sp dat query K)) =
     min K (length (Index_Search L ix sp dat query K)) \<and>
   mset (entries (KNNQuery_Result L ix sp dat query K)) \<subseteq># mset (Index_Search L ix sp dat query K)"
  using foldl_Push [of "\<lparr>capacity = K, entries = []\<rparr>" "Index_Search L ix sp dat query K"]
  by (simp add: KNNQuery_Result_def)

lemma distinct_map_submset:
  assumes "mset xs \<subseteq># mset ys" and "distinct (map g ys)"
  shows "distinct (map g xs)"
proof -
  have "image_mset g (mset xs) \<subseteq># image_mset g (mset ys)"
    using assms(1) by (rule image_mset_subseteq_mono)
  then have "mset (map g xs) \<subseteq># mset (map g ys)"
    by simp
  then have "count (mset (map g xs)) a \<le> count (mset (map g ys)) a" for a
    by (rule mset_subset_eq_count)
  moreover have "count (mset (map g ys)) a \<le> 1" for a
    using assms(2) by (simp add: distinct_count_atmost_1)
  ultimately have "count (mset (map g xs)) a \<le> 1" for a
    using order_trans by blast
  then show ?thesis
    unfolding distinct_count_atmost_1 by (metis count_mset_0_iff le_Suc_eq le_zero_eq  One_nat_def)
qed

subsection \<open>Every schedule keeps the invariant\<close>

lemma batch_invI:
  assumes "crashed s = None" and "n \<le> length qs" and "length (query_res s) = length qs"
    and "work_queue s = map (\<lambda>i. (i, qs ! i)) [n..<length qs]"
    and "\<And>i. n \<le> i \<Longrightarrow> i < length qs \<Longrightarrow> query_res s ! i = []"
    and "\<And>t. t < length (threads s) \<Longrightarrow> worker_ok R qs n (query_res s) (threads s ! t)"
    and "\<And>t u. t < length (threads s) \<Longrightarrow> u < length (threads s) \<Longrightarrow>
           held (threads s ! t) = held (threads s ! u) \<Longrightarrow> t = u \<or> held (threads s ! t) = None"
    and "\<And>i. i < n \<Longrightarrow> \<forall>t < length (threads s). held (threads s ! t) \<noteq> Some i \<Longrightarrow>
           query_res s ! i = drain (R (qs ! i)) []"
    and "\<And>t. t < length (threads s) \<Longrightarrow> threads s ! t = Exited \<Longrightarrow> n = length qs"
  shows "batch_inv R qs n s"
  unfolding batch_inv_def
proof (intro conjI)
  show "\<forall>i. n \<le> i \<and> i < length qs \<longrightarrow> query_res s ! i = []"
    using assms(5) by simp
  show "\<forall>t<length (threads s). worker_ok R qs n (query_res s) (threads s ! t)"
    using assms(6) by simp
  show "\<forall>t<length (threads s). \<forall>u<length (threads s).
      held (threads s ! t) = held (threads s ! u) \<longrightarrow> t = u \<or> held (threads s ! t) = None"
    using assms(7) by simp
  show "\<forall>i<n. (\<forall>t<length (threads s). held (threads s ! t) \<noteq> Some i) \<longrightarrow>
      query_res s ! i = drain (R (qs ! i)) []"
    using assms(8) by simp
  show "(\<exists>t<length (threads s). threads s ! t = Exited) \<longrightarrow> n = length qs"
    using assms(9) by (intro impI) (elim exE conjE)
qed (fact assms(1-4))+

lemma batch_invD:
  assumes "batch_inv R qs n s"
  shows "crashed s = None" and "n \<le> length qs" and "length (query_res s) = length qs"
    and "work_queue s = map (\<lambda>i. (i, qs ! i)) [n..<length qs]"
    and "\<And>i. n \<le> i \<Longrightarrow> i < length qs \<Longrightarrow> query_res s ! i = []"
    and "\<And>t. t < length (threads s) \<Longrightarrow> worker_ok R qs n (query_res s) (threads s ! t)"
    and "\<And>t u. t < length (threads s) \<Longrightarrow> u < length (threads s) \<Longrightarrow>
           held (threads s ! t) = held (threads s ! u) \<Longrightarrow> t = u \<or> held (threads s ! t) = None"
    and "\<And>i. i < n \<Longrightarrow> \<forall>t < length (threads s). held (threads s ! t) \<noteq> Some i \<Longrightarrow>
           query_res s ! i = drain (R (qs ! i)) []"
    and "\<And>t. t < length (threads s) \<Longrightarrow> threads s ! t = Exited \<Longrightarrow> n = length qs"
proof -
  note a = assms [unfolded batch_inv_def]
  show "crashed s = None" and "n \<le> length qs" and "length (query_res s) = length qs"
    and "work_queue s = map (\<lambda>i. (i, qs ! i)) [n..<length qs]"
    using a by simp_all
  show "query_res s ! i = []" if "n \<le> i" "i < length qs" for i
    using a that by simp
  show "worker_ok R qs n (query_res s) (threads s ! t)" if "t < length (threads s)" for t
    using a that by simp
  show "t = u \<or> held (threads s ! t) = None"
    if "t < length (threads s)" "u < length (threads s)" "held (threads s ! t) = held (threads s ! u)"
    for t u
  proof -
    have "\<forall>t<length (threads s). \<forall>u<length (threads s).
        held (threads s ! t) = held (threads s ! u) \<longrightarrow> t = u \<or> held (threads s ! t) = None"
      using a by (elim conjE)
    then show ?thesis
      using that by simp
  qed
  show "query_res s ! i = drain (R (qs ! i)) []"
    if "i < n" "\<forall>t < length (threads s). held (threads s ! t) \<noteq> Some i" for i
  proof -
    have "\<forall>i<n. (\<forall>t<length (threads s). held (threads s ! t) \<noteq> Some i) \<longrightarrow>
        query_res s ! i = drain (R (qs ! i)) []"
      using a by (elim conjE)
    then show ?thesis
      using that by simp
  qed
  show "n = length qs" if "t < length (threads s)" "threads s ! t = Exited" for t
  proof -
    have "(\<exists>t<length (threads s). threads s ! t = Exited) \<longrightarrow> n = length qs"
      using a by (elim conjE)
    then show ?thesis
      using that by blast
  qed
qed

lemma batch_inv_start: "batch_inv R qs 0 (batch_start num_threads qs)"
  by (rule batch_invI) (simp_all add: batch_start_def worker_ok_def held_def)

lemma step_outside:
  "length (threads s) \<le> t \<Longrightarrow> thread_step L w k t s = s"
  by (simp add: thread_step_def)

lemma step_exit:
  assumes "batch_inv R qs n s" "t < length (threads s)" "threads s ! t = AtLock" "work_queue s = []"
  shows "batch_inv R qs n (thread_step L w k t s)"
proof -
  note inv = batch_invD [OF assms(1)]
  let ?ts = "(threads s)[t := Exited]"
  have st: "thread_step L w k t s = s\<lparr>threads := ?ts\<rparr>"
    using assms(2-4) inv(1) by (simp add: thread_step_def)
  have "length (work_queue s) = length qs - n"
    unfolding inv(4) by simp
  then have n: "n = length qs"
    using inv(2) assms(4) by simp
  have hu: "held (?ts ! u) = held (threads s ! u)" if "u < length (threads s)" for u
    using that assms(3) by (cases "u = t") (simp_all add: held_def)
  have ok: "worker_ok R qs n (query_res s) (?ts ! u)" if "u < length (threads s)" for u
    using that inv(6) [of u] by (cases "u = t") (simp_all add: worker_ok_def)
  show ?thesis
    unfolding st
  proof (rule batch_invI, goal_cases)
    case 1
    show ?case using inv(1) by simp
  next
    case 2
    show ?case using inv(2) by simp
  next
    case 3
    show ?case using inv(3) by simp
  next
    case 4
    show ?case using inv(4) by simp
  next
    case (5 i)
    then show ?case using inv(5) by simp
  next
    case (6 u)
    then show ?case using ok by simp
  next
    case (7 a b)
    then show ?case using inv(7) [of a b] by (simp add: hu)
  next
    case (8 i)
    then show ?case using inv(8) [of i] by (simp add: hu)
  next
    case (9 u)
    show ?case by (rule n)
  qed
qed

lemma step_take:
  assumes "batch_inv R qs n s" "t < length (threads s)" "threads s ! t = AtLock" "work_queue s \<noteq> []"
  shows "batch_inv R qs (Suc n) (thread_step L w k t s)"
proof -
  note inv = batch_invD [OF assms(1)]
  have lt: "n < length qs"
    using inv(2,4) assms(4) by (cases "n = length qs") simp_all
  then have up: "[n..<length qs] = n # [Suc n..<length qs]"
    by (simp add: upt_conv_Cons)
  have wq: "work_queue s = (n, qs ! n) # map (\<lambda>i. (i, qs ! i)) [Suc n..<length qs]"
    unfolding inv(4) up by simp
  let ?ts = "(threads s)[t := Searching n (qs ! n)]"
  have st: "thread_step L w k t s =
      s\<lparr>work_queue := map (\<lambda>i. (i, qs ! i)) [Suc n..<length qs], threads := ?ts\<rparr>"
    using assms(2,3) inv(1) by (simp add: thread_step_def wq)
  have below: "i < n" if "u < length (threads s)" "held (threads s ! u) = Some i" for u i
    using inv(6) [OF that(1)] that(2) by (auto simp: worker_ok_def held_def split: worker.splits)
  have hu: "held (?ts ! u) = (if u = t then Some n else held (threads s ! u))"
    if "u < length (threads s)" for u
    using that by (simp add: held_def nth_list_update)
  have ht: "held (threads s ! t) = None"
    using assms(3) by (simp add: held_def)
  have ok: "worker_ok R qs (Suc n) (query_res s) (?ts ! u)" if "u < length (threads s)" for u
  proof (cases "u = t")
    case True
    then show ?thesis
      using that lt inv(5) [of n] by (simp add: worker_ok_def)
  next
    case False
    then show ?thesis
      using inv(6) [OF that] by (auto simp: worker_ok_def split: worker.splits)
  qed
  have uniq: "a = b \<or> held (?ts ! a) = None"
    if "a < length (threads s)" "b < length (threads s)" "held (?ts ! a) = held (?ts ! b)" for a b
    using that inv(7) [of a b] below [of a n] below [of b n] by (auto simp: hu split: if_splits)
  have settled: "query_res s ! i = drain (R (qs ! i)) []"
    if "i < Suc n" "\<forall>u < length (threads s). held (?ts ! u) \<noteq> Some i" for i
  proof -
    have "i \<noteq> n"
      using that(2) assms(2) by (auto simp: hu)
    then have "i < n"
      using that(1) by simp
    moreover have "\<forall>u < length (threads s). held (threads s ! u) \<noteq> Some i"
      using that(2) ht by (auto simp: hu split: if_splits)
    ultimately show ?thesis
      by (rule inv(8))
  qed
  have noexit: "?ts ! u \<noteq> Exited" if "u < length (threads s)" for u
  proof (cases "u = t")
    case True
    then show ?thesis using that by simp
  next
    case False
    have "threads s ! u \<noteq> Exited"
      using inv(9) [OF that] lt by auto
    then show ?thesis using False by simp
  qed
  show ?thesis
    unfolding st
  proof (rule batch_invI, goal_cases)
    case 1
    show ?case using inv(1) by simp
  next
    case 2
    show ?case using lt by simp
  next
    case 3
    show ?case using inv(3) by simp
  next
    case 4
    show ?case by simp
  next
    case (5 i)
    then show ?case using inv(5) [of i] by simp
  next
    case (6 u)
    then show ?case using ok by simp
  next
    case (7 a b)
    then show ?case using uniq [of a b] by simp
  next
    case (8 i)
    then show ?case using settled [of i] by simp
  next
    case (9 u)
    then show ?case using noexit [of u] by simp
  qed
qed

lemma step_search:
  assumes "batch_inv R qs n s" "t < length (threads s)" "threads s ! t = Searching i query"
    and "index_m w = Live ix" and "R = search_of L ix w k"
  shows "batch_inv R qs n (thread_step L w k t s)"
proof -
  note inv = batch_invD [OF assms(1)]
  let ?ts = "(threads s)[t := Draining i (R query)]"
  have st: "thread_step L w k t s = s\<lparr>threads := ?ts\<rparr>"
    using assms(2-5) inv(1) by (simp add: thread_step_def search_of_def)
  have me: "i < n" "query = qs ! i" "query_res s ! i = []"
    using inv(6) [OF assms(2)] assms(3) by (simp_all add: worker_ok_def)
  have hu: "held (?ts ! u) = held (threads s ! u)" if "u < length (threads s)" for u
    using that assms(3) by (cases "u = t") (simp_all add: held_def)
  have ok: "worker_ok R qs n (query_res s) (?ts ! u)" if "u < length (threads s)" for u
    using that inv(6) [of u] me by (cases "u = t") (simp_all add: worker_ok_def)
  have ex: "threads s ! u = Exited" if "u < length (threads s)" "?ts ! u = Exited" for u
    using that by (cases "u = t") simp_all
  show ?thesis
    unfolding st
  proof (rule batch_invI, goal_cases)
    case 1
    show ?case using inv(1) by simp
  next
    case 2
    show ?case using inv(2) by simp
  next
    case 3
    show ?case using inv(3) by simp
  next
    case 4
    show ?case using inv(4) by simp
  next
    case (5 i)
    then show ?case using inv(5) by simp
  next
    case (6 u)
    then show ?case using ok by simp
  next
    case (7 a b)
    then show ?case using inv(7) [of a b] by (simp add: hu)
  next
    case (8 i)
    then show ?case using inv(8) [of i] by (simp add: hu)
  next
    case (9 u)
    then show ?case using inv(9) [of u] ex [of u] by simp
  qed
qed

lemma step_drain_end:
  assumes "batch_inv R qs n s" "t < length (threads s)" "threads s ! t = Draining i r" "Empty r"
  shows "batch_inv R qs n (thread_step L w k t s)"
proof -
  note inv = batch_invD [OF assms(1)]
  let ?ts = "(threads s)[t := AtLock]"
  have st: "thread_step L w k t s = s\<lparr>threads := ?ts\<rparr>"
    using assms(2-4) inv(1) by (simp add: thread_step_def)
  have me: "i < n" "drain r (query_res s ! i) = drain (R (qs ! i)) []"
    using inv(6) [OF assms(2)] assms(3) by (simp_all add: worker_ok_def)
  have fin: "query_res s ! i = drain (R (qs ! i)) []"
    using me(2) assms(4) by (simp add: drain.simps [of r])
  have hu: "held (?ts ! u) = (if u = t then None else held (threads s ! u))"
    if "u < length (threads s)" for u
    using that by (simp add: held_def nth_list_update)
  have ht: "held (threads s ! t) = Some i"
    using assms(3) by (simp add: held_def)
  have ok: "worker_ok R qs n (query_res s) (?ts ! u)" if "u < length (threads s)" for u
    using that inv(6) [of u] by (cases "u = t") (simp_all add: worker_ok_def)
  have uniq: "a = b \<or> held (?ts ! a) = None"
    if "a < length (threads s)" "b < length (threads s)" "held (?ts ! a) = held (?ts ! b)" for a b
    using that inv(7) [of a b] by (auto simp: hu split: if_splits)
  have settled: "query_res s ! j = drain (R (qs ! j)) []"
    if "j < n" "\<forall>u < length (threads s). held (?ts ! u) \<noteq> Some j" for j
  proof (cases "j = i")
    case True
    then show ?thesis using fin by simp
  next
    case False
    have "\<forall>u < length (threads s). held (threads s ! u) \<noteq> Some j"
      using that(2) ht False by (auto simp: hu split: if_splits)
    with that(1) show ?thesis
      by (rule inv(8))
  qed
  have ex: "threads s ! u = Exited" if "u < length (threads s)" "?ts ! u = Exited" for u
    using that by (cases "u = t") simp_all
  show ?thesis
    unfolding st
  proof (rule batch_invI, goal_cases)
    case 1
    show ?case using inv(1) by simp
  next
    case 2
    show ?case using inv(2) by simp
  next
    case 3
    show ?case using inv(3) by simp
  next
    case 4
    show ?case using inv(4) by simp
  next
    case (5 i)
    then show ?case using inv(5) by simp
  next
    case (6 u)
    then show ?case using ok by simp
  next
    case (7 a b)
    then show ?case using uniq [of a b] by simp
  next
    case (8 i)
    then show ?case using settled [of i] by simp
  next
    case (9 u)
    then show ?case using inv(9) [of u] ex [of u] by simp
  qed
qed

lemma step_drain_one:
  assumes "batch_inv R qs n s" "t < length (threads s)" "threads s ! t = Draining i r" "\<not> Empty r"
  shows "batch_inv R qs n (thread_step L w k t s)"
proof -
  note inv = batch_invD [OF assms(1)]
  let ?ts = "(threads s)[t := Draining i (Pop r)]"
  let ?res = "(query_res s)[i := obj_id (TopObject r) # query_res s ! i]"
  have st: "thread_step L w k t s = s\<lparr>query_res := ?res, threads := ?ts\<rparr>"
    using assms(2-4) inv(1) by (simp add: thread_step_def)
  have me: "i < n" "drain r (query_res s ! i) = drain (R (qs ! i)) []"
    using inv(6) [OF assms(2)] assms(3) by (simp_all add: worker_ok_def)
  have il: "i < length (query_res s)"
    using me(1) inv(2,3) by simp
  have nxt: "drain (Pop r) (?res ! i) = drain (R (qs ! i)) []"
    using me(2) assms(4) il by (simp add: drain.simps [of r])
  have hu: "held (?ts ! u) = held (threads s ! u)" if "u < length (threads s)" for u
    using that assms(3) by (cases "u = t") (simp_all add: held_def)
  have ht: "held (threads s ! t) = Some i"
    using assms(3) by (simp add: held_def)
  have other: "held (threads s ! u) \<noteq> Some i" if "u < length (threads s)" "u \<noteq> t" for u
    using inv(7) [OF assms(2) that(1)] that(2) ht by auto
  have ok: "worker_ok R qs n ?res (?ts ! u)" if "u < length (threads s)" for u
  proof (cases "u = t")
    case True
    then show ?thesis
      using that me(1) nxt by (simp add: worker_ok_def)
  next
    case False
    have "held (threads s ! u) \<noteq> Some i"
      using other that False by simp
    then show ?thesis
      using inv(6) [OF that] False by (auto simp: worker_ok_def held_def split: worker.splits)
  qed
  have settled: "?res ! j = drain (R (qs ! j)) []"
    if "j < n" "\<forall>u < length (threads s). held (?ts ! u) \<noteq> Some j" for j
  proof -
    have "j \<noteq> i"
      using that(2) assms(2) ht by (auto simp: hu)
    moreover have "\<forall>u < length (threads s). held (threads s ! u) \<noteq> Some j"
      using that(2) by (simp add: hu)
    ultimately show ?thesis
      using inv(8) [OF that(1)] by simp
  qed
  have tail: "?res ! j = []" if "n \<le> j" "j < length qs" for j
    using that me(1) inv(5) [of j] by simp
  have ex: "threads s ! u = Exited" if "u < length (threads s)" "?ts ! u = Exited" for u
    using that by (cases "u = t") simp_all
  show ?thesis
    unfolding st
  proof (rule batch_invI, goal_cases)
    case 1
    show ?case using inv(1) by simp
  next
    case 2
    show ?case using inv(2) by simp
  next
    case 3
    show ?case using inv(3) by simp
  next
    case 4
    show ?case using inv(4) by simp
  next
    case (5 j)
    then show ?case using tail [of j] by simp
  next
    case (6 u)
    then show ?case using ok by simp
  next
    case (7 a b)
    then show ?case using inv(7) [of a b] by (simp add: hu)
  next
    case (8 j)
    then show ?case using settled [of j] by simp
  next
    case (9 u)
    then show ?case using inv(9) [of u] ex [of u] by simp
  qed
qed

lemma thread_step_inv:
  assumes "batch_inv R qs n s" and "index_m w = Live ix" and "R = search_of L ix w k"
  shows "\<exists>n'. batch_inv R qs n' (thread_step L w k t s)"
proof (cases "t < length (threads s)")
  case False
  then show ?thesis
    using assms(1) by (auto simp: step_outside)
next
  case True
  show ?thesis
  proof (cases "threads s ! t")
    case AtLock
    show ?thesis
    proof (cases "work_queue s = []")
      case True
      with assms(1) \<open>t < length (threads s)\<close> AtLock show ?thesis
        by (blast intro: step_exit)
    next
      case False
      with assms(1) \<open>t < length (threads s)\<close> AtLock show ?thesis
        by (blast intro: step_take)
    qed
  next
    case (Searching i query)
    from step_search [OF assms(1) True Searching assms(2,3)] show ?thesis
      by blast
  next
    case (Draining i r)
    show ?thesis
    proof (cases "Empty r")
      case True
      from step_drain_end [OF assms(1) \<open>t < length (threads s)\<close> Draining True] show ?thesis
        by blast
    next
      case False
      from step_drain_one [OF assms(1) \<open>t < length (threads s)\<close> Draining False] show ?thesis
        by blast
    qed
  next
    case Exited
    then have "thread_step L w k t s = s"
      by (simp add: thread_step_def)
    then show ?thesis
      using assms(1) by auto
  qed
qed

lemma run_threads_inv:
  assumes "index_m w = Live ix" and "R = search_of L ix w k"
  shows "batch_inv R qs n s \<Longrightarrow> \<exists>n'. batch_inv R qs n' (run_threads L w k sched s)"
proof (induction sched arbitrary: n s)
  case Nil
  then show ?case by (auto simp: run_threads_def)
next
  case (Cons t sched)
  obtain n' where "batch_inv R qs n' (thread_step L w k t s)"
    using thread_step_inv [OF Cons.prems assms] by blast
  from Cons.IH [OF this] show ?case
    by (simp add: run_threads_def)
qed

lemma batch_inv_joined:
  assumes "batch_inv R qs n s" and "joined s" and "threads s \<noteq> []"
  shows "query_res s = map (\<lambda>q. drain (R q) []) qs"
proof -
  note inv = batch_invD [OF assms(1)]
  have all: "threads s ! t = Exited" if "t < length (threads s)" for t
    using assms(2) that by (simp add: joined_def list_all_length)
  have "0 < length (threads s)"
    using assms(3) by simp
  then have n: "n = length qs"
    using inv(9) [of 0] all by simp
  have "query_res s ! i = drain (R (qs ! i)) []" if "i < length qs" for i
    using inv(8) [of i] that n all by (simp add: held_def)
  then show ?thesis
    using inv(3) by (intro nth_equalityI) simp_all
qed

subsection \<open>Some schedule joins every thread\<close>

lemma sum_list_map_update:
  "t < length xs \<Longrightarrow>
     sum_list (map f (xs[t := y])) + f (xs ! t) = sum_list (map f xs) + (f y :: nat)"
proof (induction xs arbitrary: t)
  case Nil
  then show ?case by simp
next
  case (Cons x xs)
  then show ?case
    by (cases t) (simp_all add: add.assoc add.left_commute)
qed

lemma thread_step_threads_length: "length (threads (thread_step L w k t s)) = length (threads s)"
  by (simp add: thread_step_def split: worker.splits list.splits pointer.splits)

lemma run_threads_threads_length: "length (threads (run_threads L w k sched s)) = length (threads s)"
  unfolding run_threads_def
  by (induction sched arbitrary: s) (simp_all add: thread_step_threads_length)

lemma thread_step_live:
  "index_m w = Live ix \<Longrightarrow> crashed s = None \<Longrightarrow> crashed (thread_step L w k t s) = None"
  by (simp add: thread_step_def split: worker.splits list.splits)

lemma thread_step_cost:
  assumes "index_m w = Live ix" and "R = search_of L ix w k" and "crashed s = None"
    and "t < length (threads s)" and "threads s ! t \<noteq> Exited"
  shows "batch_cost R (thread_step L w k t s) < batch_cost R s"
proof (cases "threads s ! t")
  case AtLock
  show ?thesis
  proof (cases "work_queue s")
    case Nil
    then have st: "thread_step L w k t s = s\<lparr>threads := (threads s)[t := Exited]\<rparr>"
      using assms(3,4) AtLock by (simp add: thread_step_def)
    show ?thesis
      using sum_list_map_update [OF assms(4), of "worker_cost R" Exited] AtLock
      by (simp add: st batch_cost_def worker_cost_def)
  next
    case (Cons item rest)
    obtain i query where item: "item = (i, query)"
      by (cases item)
    have st: "thread_step L w k t s =
        s\<lparr>work_queue := rest, threads := (threads s)[t := Searching i query]\<rparr>"
      using assms(3,4) AtLock Cons item by (simp add: thread_step_def)
    show ?thesis
      using sum_list_map_update [OF assms(4), of "worker_cost R" "Searching i query"] AtLock Cons item
      by (simp add: st batch_cost_def worker_cost_def)
  qed
next
  case (Searching i query)
  then have st: "thread_step L w k t s = s\<lparr>threads := (threads s)[t := Draining i (R query)]\<rparr>"
    using assms(1-4) by (simp add: thread_step_def search_of_def)
  show ?thesis
    using sum_list_map_update [OF assms(4), of "worker_cost R" "Draining i (R query)"] Searching
    by (simp add: st batch_cost_def worker_cost_def)
next
  case (Draining i r)
  show ?thesis
  proof (cases "Empty r")
    case True
    then have st: "thread_step L w k t s = s\<lparr>threads := (threads s)[t := AtLock]\<rparr>"
      using assms(3,4) Draining by (simp add: thread_step_def)
    show ?thesis
      using sum_list_map_update [OF assms(4), of "worker_cost R" AtLock] Draining
      by (simp add: st batch_cost_def worker_cost_def)
  next
    case False
    then have st: "thread_step L w k t s =
        s\<lparr>query_res := (query_res s)[i := obj_id (TopObject r) # query_res s ! i],
          threads := (threads s)[t := Draining i (Pop r)]\<rparr>"
      using assms(3,4) Draining by (simp add: thread_step_def)
    have "entries r \<noteq> []"
      using False by (simp add: Empty_def)
    then have "length (entries (Pop r)) < length (entries r)"
      by (simp add: Pop_def)
    then show ?thesis
      using sum_list_map_update [OF assms(4), of "worker_cost R" "Draining i (Pop r)"] Draining
      by (simp add: st batch_cost_def worker_cost_def)
  qed
next
  case Exited
  then show ?thesis
    using assms(5) by simp
qed

lemma schedule_exists:
  assumes "index_m w = Live ix"
  shows "crashed s = None \<Longrightarrow>
    \<exists>sched. joined (run_threads L w k sched s) \<and> crashed (run_threads L w k sched s) = None"
proof (induction "batch_cost (search_of L ix w k) s" arbitrary: s rule: less_induct)
  case less
  show ?case
  proof (cases "joined s")
    case True
    then have "joined (run_threads L w k [] s) \<and> crashed (run_threads L w k [] s) = None"
      using less.prems by (simp add: run_threads_def)
    then show ?thesis
      by blast
  next
    case False
    then obtain t where t: "t < length (threads s)" "threads s ! t \<noteq> Exited"
      by (auto simp: joined_def list_all_length)
    have c: "batch_cost (search_of L ix w k) (thread_step L w k t s) <
        batch_cost (search_of L ix w k) s"
      using assms less.prems t by (intro thread_step_cost) simp_all
    have l: "crashed (thread_step L w k t s) = None"
      using assms less.prems by (rule thread_step_live)
    obtain sched where
      "joined (run_threads L w k sched (thread_step L w k t s)) \<and>
       crashed (run_threads L w k sched (thread_step L w k t s)) = None"
      using less.hyps [OF c l] by blast
    then have "joined (run_threads L w k (t # sched) s) \<and>
        crashed (run_threads L w k (t # sched) s) = None"
      by (simp add: run_threads_def)
    then show ?thesis
      by blast
  qed
qed

lemma KnnQuery_live:
  "index_m w = Live ix \<Longrightarrow>
     KnnQuery L w k query = Inr (PyList (map PyInt (drain (search_of L ix w k query) [])))"
  by (simp add: KnnQuery_def search_of_def Let_def)

subsection \<open>A batch on a null index pointer\<close>

lemma searching_update:
  "u < length ts \<Longrightarrow> searching (ts ! u) \<Longrightarrow> \<not> searching (ts ! t) \<Longrightarrow>
     \<exists>v < length (ts[t := y]). searching (ts[t := y] ! v)"
proof -
  assume a: "u < length ts" "searching (ts ! u)" "\<not> searching (ts ! t)"
  then have "u \<noteq> t"
    by auto
  then have "searching (ts[t := y] ! u)"
    using a by simp
  then show ?thesis
    using a(1) by auto
qed

lemma exited_update:
  "u < length ts \<Longrightarrow> ts[t := y] ! u = Exited \<Longrightarrow> y \<noteq> Exited \<Longrightarrow> ts ! u = Exited"
  by (cases "u = t") simp_all

lemma null_inv_start: "null_inv qs (batch_start num_threads qs)"
  by (auto simp: null_inv_def batch_start_def)

lemma thread_step_null:
  assumes "index_m w = nullptr" and "null_inv qs s"
  shows "null_inv qs (thread_step L w k t s)"
proof (cases "crashed s = None \<and> t < length (threads s)")
  case False
  then have "thread_step L w k t s = s"
    by (auto simp: thread_step_def)
  then show ?thesis
    using assms(2) by simp
next
  case True
  then have cr: "crashed s = None" and t: "t < length (threads s)"
    by simp_all
  have front: "work_queue s = map (\<lambda>i. (i, qs ! i)) [0..<length qs] \<or>
      (\<exists>u < length (threads s). searching (threads s ! u))"
    and ex: "\<And>u. u < length (threads s) \<Longrightarrow> threads s ! u = Exited \<Longrightarrow> work_queue s = []"
    using assms(2) cr unfolding null_inv_def by blast+
  show ?thesis
  proof (cases "threads s ! t")
    case AtLock
    then have ns: "\<not> searching (threads s ! t)"
      by (simp add: searching_def)
    show ?thesis
    proof (cases "work_queue s")
      case Nil
      then have st: "thread_step L w k t s = s\<lparr>threads := (threads s)[t := Exited]\<rparr>"
        using cr t AtLock by (simp add: thread_step_def)
      have "work_queue s = map (\<lambda>i. (i, qs ! i)) [0..<length qs] \<or>
          (\<exists>v < length ((threads s)[t := Exited]). searching ((threads s)[t := Exited] ! v))"
        using front ns searching_update [of _ "threads s" t Exited] by blast
      then show ?thesis
        unfolding st null_inv_def using cr Nil by simp
    next
      case (Cons item rest)
      obtain i query where item: "item = (i, query)"
        by (cases item)
      let ?ts = "(threads s)[t := Searching i query]"
      have st: "thread_step L w k t s = s\<lparr>work_queue := rest, threads := ?ts\<rparr>"
        using cr t AtLock Cons item by (simp add: thread_step_def)
      have "searching (?ts ! t)"
        using t by (simp add: searching_def)
      then have a: "\<exists>v < length ?ts. searching (?ts ! v)"
        using t by auto
      have b: "?ts ! u \<noteq> Exited" if "u < length ?ts" for u
      proof
        assume "?ts ! u = Exited"
        then have "threads s ! u = Exited"
          using that exited_update [of u "threads s" t "Searching i query"] by simp
        then show False
          using ex [of u] that Cons by simp
      qed
      show ?thesis
        unfolding st null_inv_def using cr a b by auto
    qed
  next
    case (Searching i query)
    then have "thread_step L w k t s = s\<lparr>crashed := Some NullIndexDereference\<rparr>"
      using cr t assms(1) by (simp add: thread_step_def)
    then show ?thesis
      by (simp add: null_inv_def)
  next
    case (Draining i r)
    then have ns: "\<not> searching (threads s ! t)"
      by (simp add: searching_def)
    obtain y res' where st: "thread_step L w k t s = s\<lparr>query_res := res', threads := (threads s)[t := y]\<rparr>"
      and y: "y \<noteq> Exited"
    proof (cases "Empty r")
      case True
      then have "thread_step L w k t s = s\<lparr>query_res := query_res s, threads := (threads s)[t := AtLock]\<rparr>"
        using cr t Draining by (simp add: thread_step_def)
      then show ?thesis
        using that by blast
    next
      case False
      then have "thread_step L w k t s =
          s\<lparr>query_res := (query_res s)[i := obj_id (TopObject r) # query_res s ! i],
            threads := (threads s)[t := Draining i (Pop r)]\<rparr>"
        using cr t Draining by (simp add: thread_step_def)
      then show ?thesis
        using that by blast
    qed
    have a: "work_queue s = map (\<lambda>i. (i, qs ! i)) [0..<length qs] \<or>
        (\<exists>v < length ((threads s)[t := y]). searching ((threads s)[t := y] ! v))"
      using front ns searching_update [of _ "threads s" t y] by blast
    have b: "work_queue s = []" if "u < length (threads s)" "(threads s)[t := y] ! u = Exited" for u
      using that y ex [of u] exited_update [of u "threads s" t y] by blast
    show ?thesis
      unfolding st null_inv_def using cr a b by auto
  next
    case Exited
    then have "thread_step L w k t s = s"
      by (simp add: thread_step_def)
    then show ?thesis
      using assms(2) by simp
  qed
qed

lemma run_threads_null:
  assumes "index_m w = nullptr"
  shows "null_inv qs s \<Longrightarrow> null_inv qs (run_threads L w k sched s)"
proof (induction sched arbitrary: s)
  case Nil
  then show ?case by (simp add: run_threads_def)
next
  case (Cons t sched)
  have "null_inv qs (thread_step L w k t s)"
    using assms Cons.prems by (rule thread_step_null)
  from Cons.IH [OF this] show ?case
    by (simp add: run_threads_def)
qed

lemma KnnQueryBatch_null:
  assumes "index_m w = nullptr" and "1 \<le> num_threads" and "qs \<noteq> []"
    and "KnnQueryBatch L w num_threads k qs sched = Some res"
  shows "res = Inl NullIndexDereference"
proof -
  let ?s = "run_threads L w k sched (batch_start num_threads qs)"
  have inv: "null_inv qs ?s"
    using assms(1) null_inv_start by (rule run_threads_null)
  show ?thesis
  proof (cases "crashed ?s")
    case (Some f)
    then have "f = NullIndexDereference"
      using inv by (simp add: null_inv_def)
    then show ?thesis
      using assms(4) Some by (simp add: KnnQueryBatch_def Let_def)
  next
    case None
    then have j: "joined ?s"
      using assms(4) by (simp add: KnnQueryBatch_def Let_def split: if_splits)
    have len: "length (threads ?s) = nat num_threads"
      by (simp add: run_threads_threads_length batch_start_def)
    then have pos: "0 < length (threads ?s)"
      using assms(2) by simp
    have all: "threads ?s ! t = Exited" if "t < length (threads ?s)" for t
      using j that by (simp add: joined_def list_all_length)
    have "work_queue ?s = []"
      using inv None pos all [of 0] unfolding null_inv_def by blast
    moreover have "map (\<lambda>i. (i, qs ! i)) [0..<length qs] \<noteq> []"
      using assms(3) by simp
    moreover have "\<not> (\<exists>t < length (threads ?s). searching (threads ?s ! t))"
      using all by (auto simp: searching_def)
    ultimately show ?thesis
      using inv None unfolding null_inv_def by auto
  qed
qed

lemma KnnQueryBatch_null_crash:
  assumes "index_m w = nullptr" and "1 \<le> num_threads" and "qs \<noteq> []"
  shows "KnnQueryBatch L w num_threads k qs [0, 0] = Some (Inl NullIndexDereference)"
proof -
  obtain m where m: "nat num_threads = Suc m"
    using assms(2) by (cases "nat num_threads") simp_all
  have up: "[0..<length qs] = 0 # [Suc 0..<length qs]"
    using assms(3) by (simp add: upt_conv_Cons)
  show ?thesis
    using assms(1)
    by (simp add: KnnQueryBatch_def run_threads_def thread_step_def batch_start_def m up Let_def)
qed

subsection \<open>What the calls return\<close>

lemma KnnQueryBatch_T_no_threads:
  assumes "1 \<le> k" and "float32_matrix dat" and "num_threads \<le> 0"
  shows "knnQueryBatch_T L h num_threads k dat sched =
      Some (Inr (PyIntArray2 (replicate (length (rows dat)) (replicate (nat k) 0))))"
proof -
  let ?s = "batch_start num_threads (query_objects_of dat) :: 'c batch"
  have t: "threads ?s = []"
    using assms(3) by (simp add: batch_start_def)
  have r: "run_threads L h k sched ?s = ?s"
    using t by (rule run_threads_none)
  have dim: "PyArray_DIM dat 0 = length (rows dat)"
    using assms(2) by (simp add: float32_matrix_def PyArray_DIM_def)
  have q: "KnnQueryBatch L h num_threads k (query_objects_of dat) sched =
      Some (Inr (replicate (length (rows dat)) []))"
  proof -
    have "joined ?s"
      using t by (simp add: joined_def)
    moreover have "crashed ?s = None"
      by (simp add: batch_start_def)
    moreover have "query_res ?s = replicate (length (rows dat)) []"
      using dim by (simp add: batch_start_def length_query_objects_of)
    ultimately show ?thesis
      by (simp add: KnnQueryBatch_def r Let_def)
  qed
  have c: "copy_rows (replicate (length (rows dat)) []) k
      (replicate (length (rows dat)) (replicate (nat k) 0)) =
      replicate (length (rows dat)) (replicate (nat k) 0)"
    by (rule copy_rows_empty) simp_all
  show ?thesis
    using assms(1,2) dim
    by (simp add: knnQueryBatch_T_def float32_matrix_def q PyArray_FromDims_def c)
qed

section \<open>The claims\<close>

text \<open>
  C1: on a wrapper whose index pointer is live and with at least one worker thread,
  \<open>KnnQueryBatch\<close> returns under some schedule, and under every schedule under which it
  returns, it returns one list per query: the list at position \<open>i\<close> holds the identifiers
  that \<open>KnnQuery\<close> returns for query \<open>i\<close> on the same wrapper, whatever the number of
  threads and the order of their steps.
\<close>

theorem KnnQueryBatch_is_KnnQuery:
  assumes "index_m w = Live ix" and "1 \<le> num_threads"
  shows "(\<exists>sched. KnnQueryBatch L w num_threads k qs sched \<noteq> None) \<and>
    (\<forall>sched res. KnnQueryBatch L w num_threads k qs sched = Some res \<longrightarrow>
       (\<exists>rs. res = Inr rs \<and> length rs = length qs \<and>
          (\<forall>i < length qs. KnnQuery L w k (qs ! i) = Inr (PyList (map PyInt (rs ! i))))))"
proof (intro conjI allI impI)
  let ?s = "batch_start num_threads qs :: 'c batch"
  have "crashed ?s = None"
    by (simp add: batch_start_def)
  from schedule_exists [OF assms(1) this, of L k]
  obtain sched where "joined (run_threads L w k sched ?s)"
    and "crashed (run_threads L w k sched ?s) = None"
    by blast
  then have "KnnQueryBatch L w num_threads k qs sched \<noteq> None"
    by (simp add: KnnQueryBatch_def Let_def)
  then show "\<exists>sched. KnnQueryBatch L w num_threads k qs sched \<noteq> None"
    by blast
next
  fix sched res
  assume r: "KnnQueryBatch L w num_threads k qs sched = Some res"
  let ?R = "search_of L ix w k"
  let ?s = "run_threads L w k sched (batch_start num_threads qs)"
  obtain n where inv: "batch_inv ?R qs n ?s"
    using run_threads_inv [OF assms(1) refl batch_inv_start] by blast
  have cr: "crashed ?s = None"
    using batch_invD(1) [OF inv] .
  have j: "joined ?s" and res: "res = Inr (query_res ?s)"
    using r cr by (simp_all add: KnnQueryBatch_def Let_def split: if_splits)
  have "length (threads ?s) = nat num_threads"
    by (simp add: run_threads_threads_length batch_start_def)
  then have "threads ?s \<noteq> []"
    using assms(2) by auto
  from batch_inv_joined [OF inv j this]
  have q: "query_res ?s = map (\<lambda>q. drain (?R q) []) qs" .
  show "\<exists>rs. res = Inr rs \<and> length rs = length qs \<and>
      (\<forall>i < length qs. KnnQuery L w k (qs ! i) = Inr (PyList (map PyInt (rs ! i))))"
    using res q assms(1) by (simp add: KnnQuery_live)
qed

theorem KnnQueryBatch_is_KnnQuery_witness:
  "index_m built_handle = Live Built \<and> (1::int) \<le> 2 \<and>
   KnnQueryBatch seq_lib built_handle 2 1 [query_at 0, query_at 1] [0, 1, 1, 0, 1, 0, 0, 1, 1, 0] =
     Some (Inr [[7], [8]]) \<and>
   KnnQuery seq_lib built_handle 1 (query_at 0) = Inr (PyList [PyInt 7]) \<and>
   KnnQuery seq_lib built_handle 1 (query_at 1) = Inr (PyList [PyInt 8])"
proof -
  have i: "index_m built_handle = Live Built"
    by (simp add: built_handle_def)
  have le: "(1::int) \<le> 2"
    by simp
  have b: "KnnQueryBatch seq_lib built_handle 2 1 [query_at 0, query_at 1]
      [0, 1, 1, 0, 1, 0, 0, 1, 1, 0] = Some (Inr [[7], [8]])"
    by code_simp
  have q: "KnnQuery seq_lib built_handle 1 ([query_at 0, query_at 1] ! i) =
      Inr (PyList (map PyInt ([[7], [8]] ! i)))" if "i < 2" for i
    using KnnQueryBatch_is_KnnQuery [OF i le, of seq_lib 1 "[query_at 0, query_at 1]"] b that
    by fastforce
  show ?thesis
    using i b q [of 0] q [of 1] by simp
qed

text \<open>
  C2, as amended: on a live index and for \<open>1 \<le> k\<close>, \<open>KnnQuery\<close> returns the identifiers
  of the entries of the result queue in ascending order of distance (equal distances may
  follow each other). Their number is the smaller of \<open>k\<close> and the number of candidates
  the search handed to the query, so at most \<open>k\<close> and never padded; every entry is one of
  those candidates; and the identifiers are distinct whenever the identifiers of the
  candidates are.
\<close>

theorem KnnQuery_ascending:
  assumes "index_m w = Live ix" and "1 \<le> k" and "k < 2 ^ 31"
  shows "KnnQuery L w k query =
      Inr (PyList (map (\<lambda>e. PyInt (obj_id (snd e)))
        (entries (KNNQuery_Result L ix (space_m w) (data_m w) query (nat k))))) \<and>
    sorted (map fst (entries (KNNQuery_Result L ix (space_m w) (data_m w) query (nat k)))) \<and>
    length (entries (KNNQuery_Result L ix (space_m w) (data_m w) query (nat k))) =
      min (nat k) (length (Index_Search L ix (space_m w) (data_m w) query (nat k))) \<and>
    mset (entries (KNNQuery_Result L ix (space_m w) (data_m w) query (nat k))) \<subseteq>#
      mset (Index_Search L ix (space_m w) (data_m w) query (nat k)) \<and>
    (distinct (map (\<lambda>e. obj_id (snd e))
        (Index_Search L ix (space_m w) (data_m w) query (nat k))) \<longrightarrow>
     distinct (map (\<lambda>e. obj_id (snd e))
       (entries (KNNQuery_Result L ix (space_m w) (data_m w) query (nat k)))))"
proof -
  let ?res = "KNNQuery_Result L ix (space_m w) (data_m w) query (nat k)"
  have u: "unsigned_of_int k = nat k"
    using assms(2,3) by (simp add: unsigned_of_int_nat)
  have q: "KnnQuery L w k query = Inr (PyList (map (\<lambda>e. PyInt (obj_id (snd e))) (entries ?res)))"
    using assms(1) by (simp add: KnnQuery_def u drain_entries Let_def)
  note r = KNNQuery_Result_queue [of L ix "space_m w" "data_m w" query "nat k"]
  have d: "distinct (map (\<lambda>e. obj_id (snd e)) (entries ?res))"
    if "distinct (map (\<lambda>e. obj_id (snd e)) (Index_Search L ix (space_m w) (data_m w) query (nat k)))"
    using r that by (blast intro: distinct_map_submset)
  show ?thesis
    using q r d by blast
qed

theorem KnnQuery_ascending_witness:
  "index_m built_handle = Live Built \<and> (1::int) \<le> 2 \<and> (2::int) < 2 ^ 31 \<and>
   KnnQuery seq_lib built_handle 2 (query_at 0) = Inr (PyList [PyInt 7, PyInt 8]) \<and>
   sorted (map fst (entries (KNNQuery_Result seq_lib Built () (data_m built_handle) (query_at 0) 2)))"
proof -
  have i: "index_m built_handle = Live Built"
    by (simp add: built_handle_def)
  have e: "entries (KNNQuery_Result seq_lib Built () (data_m built_handle) (query_at 0) (nat 2)) =
      [(0, \<lparr>obj_id = 7, label = - 1, data = [0]\<rparr>), (1, \<lparr>obj_id = 8, label = - 1, data = [1]\<rparr>)]"
    by code_simp
  from KnnQuery_ascending [OF i, of 2 seq_lib "query_at 0"] show ?thesis
    using i e by (simp add: built_handle_def)
qed

text \<open>
  C2 as stated fails on three stored points of which two share the identifier 7
  and two are at the same distance from the query: the list returned for \<open>k = 3\<close> names 7
  twice, and the distances of its entries are 0, 1, 1.
\<close>

theorem KnnQuery_ties_counterexample:
  "index_m tied_handle = Live Built \<and>
   knnQuery seq_lib id tied_handle 3 (PyList [PyFloat 0]) =
     (Inr (PyList [PyInt 7, PyInt 8, PyInt 7]), tied_handle) \<and>
   KnnQuery seq_lib tied_handle 3 (query_at 0) = Inr (PyList [PyInt 7, PyInt 8, PyInt 7]) \<and>
   map fst (entries (KNNQuery_Result seq_lib Built () (data_m tied_handle) (query_at 0) 3)) =
     [0, 1, 1] \<and>
   \<not> distinct [7, 8, 7 :: int] \<and> \<not> sorted_wrt (<) [0, 1, 1 :: real]"
  by code_simp

text \<open>
  C3, as amended: the bindings make no check of the lifecycle. On a handle whose index
  pointer is null (neither \<open>createIndex\<close> nor \<open>loadIndex\<close> has been called), with
  \<open>k \<ge> 1\<close>: \<open>knnQuery\<close> on a vector handle calls the search through the null pointer;
  \<open>knnQueryBatch\<close> with \<open>num_threads \<le> 0\<close> searches nothing and returns the array of
  zeros; \<open>knnQueryBatch\<close> with at least one thread and one query calls the search through
  the null pointer under the schedule in which the first thread takes two steps, and
  under no schedule does it return anything else. No error object is raised in any of
  these cases.
\<close>

theorem knn_on_null_index:
  assumes "index_m h = nullptr" and "IsDistFloat h" and "1 \<le> k" and "float32_matrix dat"
  shows "(GetDataType h = kDataVector \<longrightarrow>
       knnQuery L rnd h k (PyList (map PyFloat v)) = (Inl NullIndexDereference, h)) \<and>
    (num_threads \<le> 0 \<longrightarrow>
       knnQueryBatch L h num_threads k dat sched =
         Some (Inr (PyIntArray2 (replicate (length (rows dat)) (replicate (nat k) 0))), h)) \<and>
    (1 \<le> num_threads \<and> rows dat \<noteq> [] \<longrightarrow>
       knnQueryBatch L h num_threads k dat [0, 0] = Some (Inl NullIndexDereference, h) \<and>
       (knnQueryBatch L h num_threads k dat sched = None \<or>
        knnQueryBatch L h num_threads k dat sched = Some (Inl NullIndexDereference, h)))"
proof (intro conjI impI)
  assume "GetDataType h = kDataVector"
  then show "knnQuery L rnd h k (PyList (map PyFloat v)) = (Inl NullIndexDereference, h)"
    using assms(1-3)
    by (simp add: knnQuery_def knnQuery_T_def NMSLIB_DATA_READERS_def readVector_floats KnnQuery_def)
next
  assume "num_threads \<le> 0"
  with assms(3,4) have "knnQueryBatch_T L h num_threads k dat sched =
      Some (Inr (PyIntArray2 (replicate (length (rows dat)) (replicate (nat k) 0))))"
    by (rule KnnQueryBatch_T_no_threads)
  then show "knnQueryBatch L h num_threads k dat sched =
      Some (Inr (PyIntArray2 (replicate (length (rows dat)) (replicate (nat k) 0))), h)"
    using assms(2,3) by (simp add: knnQueryBatch_def)
next
  assume a: "1 \<le> num_threads \<and> rows dat \<noteq> []"
  have ne: "query_objects_of dat \<noteq> []"
    using a assms(4) length_query_objects_of [of dat]
    by (auto simp: float32_matrix_def PyArray_DIM_def)
  have hd: "\<not> NPY_FORTRAN dat" "type_num dat = NPY_FLOAT32" "nd dat = 2"
    using assms(4) by (simp_all add: float32_matrix_def)
  have crash: "KnnQueryBatch L h num_threads k (query_objects_of dat) [0, 0] =
      Some (Inl NullIndexDereference)"
    using assms(1) a ne by (intro KnnQueryBatch_null_crash) simp_all
  have first: "knnQueryBatch L h num_threads k dat [0, 0] = Some (Inl NullIndexDereference, h)"
    using assms(2,3) hd crash by (simp add: knnQueryBatch_def knnQueryBatch_T_def)
  have other: "knnQueryBatch L h num_threads k dat sched = None \<or>
      knnQueryBatch L h num_threads k dat sched = Some (Inl NullIndexDereference, h)"
  proof (cases "KnnQueryBatch L h num_threads k (query_objects_of dat) sched")
    case None
    then show ?thesis
      using assms(2,3) hd by (simp add: knnQueryBatch_def knnQueryBatch_T_def)
  next
    case (Some res)
    have "res = Inl NullIndexDereference"
      using assms(1) a ne Some by (intro KnnQueryBatch_null [of h num_threads _ L k sched]) simp_all
    then show ?thesis
      using assms(2,3) hd Some by (simp add: knnQueryBatch_def knnQueryBatch_T_def)
  qed
  show "knnQueryBatch L h num_threads k dat [0, 0] = Some (Inl NullIndexDereference, h)"
    by (rule first)
  show "knnQueryBatch L h num_threads k dat sched = None \<or>
      knnQueryBatch L h num_threads k dat sched = Some (Inl NullIndexDereference, h)"
    by (rule other)
qed

theorem knn_on_null_index_witness:
  "index_m (fresh_handle kDataVector) = nullptr \<and> IsDistFloat (fresh_handle kDataVector) \<and>
   (1::int) \<le> 1 \<and> float32_matrix (float32_array 1 [[1]]) \<and>
   knnQuery seq_lib id (fresh_handle kDataVector) 1 (PyList (map PyFloat [1])) =
     (Inl NullIndexDereference, fresh_handle kDataVector) \<and>
   knnQueryBatch seq_lib (fresh_handle kDataVector) 1 1 (float32_array 1 [[1]]) [0, 0] =
     Some (Inl NullIndexDereference, fresh_handle kDataVector)"
proof -
  have a: "index_m (fresh_handle kDataVector) = nullptr" "IsDistFloat (fresh_handle kDataVector)"
    "(1::int) \<le> 1" "float32_matrix (float32_array 1 [[1]])"
    by (simp_all add: fresh_handle_def IsDistFloat_def float32_matrix_def float32_array_def)
  from knn_on_null_index [OF a, of seq_lib id "[1]" 1 "[0, 0]"] show ?thesis
    using a by (simp add: GetDataType_def fresh_handle_def float32_array_def)
qed

text \<open>
  C3 as stated fails on the handle \<open>init\<close> has just returned: with no thread,
  \<open>knnQueryBatch\<close> returns an array and no error.
\<close>

theorem knnQueryBatch_unbuilt_counterexample:
  "init seq_lib ''l2'' [] ''seq_search'' kDataVector kDistFloat = Inr (fresh_handle kDataVector) \<and>
   index_m (fresh_handle kDataVector) = nullptr \<and>
   knnQueryBatch seq_lib (fresh_handle kDataVector) 0 1 (float32_array 1 [[1]]) [] =
     Some (Inr (PyIntArray2 [[0]]), fresh_handle kDataVector)"
  by code_simp

text \<open>
  C4, as amended: \<open>createIndex\<close> and \<open>loadIndex\<close> put the object the factory returns in the
  place of the previous index before the build (the load) runs on it, not once it has
  succeeded. A call of \<open>createIndex\<close> that returns to its caller either raised the
  \<open>ValueError\<close> of an argument that is no list of strings and left the handle as it was, or
  returned \<open>None\<close> with the handle referring to an index whose build succeeded; a call of
  \<open>loadIndex\<close> that returns to its caller returned \<open>None\<close> with the handle referring to
  an index whose load succeeded. A build (a load) that throws leaves the call as an uncaught
  C++ exception, the handle referring at that moment to the index the failed build (load)
  was working on; a factory that throws leaves it with the pointer to the deleted previous
  index.
\<close>

theorem createIndex_outcomes:
  assumes "IsDistFloat h" and "index_m h \<noteq> Deleted"
  shows "(returns_to_caller (fst (createIndex L h param_list)) \<longrightarrow>
       createIndex L h param_list = (Inl (ValueError CannotConvertArgToList), h) \<or>
       (\<exists>ps ix0 ix. readList param_list [] PyString_AsString = Inr ps \<and>
          CreateMethod L (method_name_m h) (space_type_m h) (space_m h) (data_m h) = Some ix0 \<and>
          Index_CreateIndex L ix0 ps = (True, ix) \<and>
          createIndex L h param_list = (Inr Py_None, h\<lparr>index_m := Live ix\<rparr>))) \<and>
    (\<forall>ps ix0 ix. readList param_list [] PyString_AsString = Inr ps \<and>
       CreateMethod L (method_name_m h) (space_type_m h) (space_m h) (data_m h) = Some ix0 \<and>
       Index_CreateIndex L ix0 ps = (False, ix) \<longrightarrow>
       createIndex L h param_list = (Inl UncaughtException, h\<lparr>index_m := Live ix\<rparr>)) \<and>
    (\<forall>ps. readList param_list [] PyString_AsString = Inr ps \<and>
       CreateMethod L (method_name_m h) (space_type_m h) (space_m h) (data_m h) = None \<longrightarrow>
       createIndex L h param_list = (Inl UncaughtException, delete_index h)) \<and>
    (returns_to_caller (fst (loadIndex L h file_name)) \<longrightarrow>
       (\<exists>ix0 ix.
          CreateMethod L (method_name_m h) (space_type_m h) (space_m h) (data_m h) = Some ix0 \<and>
          Index_LoadIndex L ix0 file_name = (True, ix) \<and>
          loadIndex L h file_name = (Inr Py_None, h\<lparr>index_m := Live ix\<rparr>))) \<and>
    (\<forall>ix0 ix.
       CreateMethod L (method_name_m h) (space_type_m h) (space_m h) (data_m h) = Some ix0 \<and>
       Index_LoadIndex L ix0 file_name = (False, ix) \<longrightarrow>
       loadIndex L h file_name = (Inl UncaughtException, h\<lparr>index_m := Live ix\<rparr>)) \<and>
    (CreateMethod L (method_name_m h) (space_type_m h) (space_m h) (data_m h) = None \<longrightarrow>
       loadIndex L h file_name = (Inl UncaughtException, delete_index h))"
proof (intro conjI)
  let ?mk = "CreateMethod L (method_name_m h) (space_type_m h) (space_m h) (data_m h)"
  show "returns_to_caller (fst (createIndex L h param_list)) \<longrightarrow>
       createIndex L h param_list = (Inl (ValueError CannotConvertArgToList), h) \<or>
       (\<exists>ps ix0 ix. readList param_list [] PyString_AsString = Inr ps \<and> ?mk = Some ix0 \<and>
          Index_CreateIndex L ix0 ps = (True, ix) \<and>
          createIndex L h param_list = (Inr Py_None, h\<lparr>index_m := Live ix\<rparr>))"
  proof (cases "readList param_list [] PyString_AsString")
    case (Inl e)
    then show ?thesis
      by (simp add: createIndex_def)
  next
    case (Inr ps)
    show ?thesis
    proof (cases ?mk)
      case None
      then show ?thesis
        using assms Inr by (simp add: createIndex_def CreateIndex_def returns_to_caller_def)
    next
      case (Some ix0)
      obtain ok ix where b: "Index_CreateIndex L ix0 ps = (ok, ix)"
        by (cases "Index_CreateIndex L ix0 ps")
      show ?thesis
        using assms Inr Some b
        by (cases ok) (simp_all add: createIndex_def CreateIndex_def returns_to_caller_def)
    qed
  qed
  show "\<forall>ps ix0 ix. readList param_list [] PyString_AsString = Inr ps \<and> ?mk = Some ix0 \<and>
       Index_CreateIndex L ix0 ps = (False, ix) \<longrightarrow>
       createIndex L h param_list = (Inl UncaughtException, h\<lparr>index_m := Live ix\<rparr>)"
    using assms by (simp add: createIndex_def CreateIndex_def)
  show "\<forall>ps. readList param_list [] PyString_AsString = Inr ps \<and> ?mk = None \<longrightarrow>
       createIndex L h param_list = (Inl UncaughtException, delete_index h)"
    using assms by (simp add: createIndex_def CreateIndex_def)
  show "returns_to_caller (fst (loadIndex L h file_name)) \<longrightarrow>
       (\<exists>ix0 ix. ?mk = Some ix0 \<and> Index_LoadIndex L ix0 file_name = (True, ix) \<and>
          loadIndex L h file_name = (Inr Py_None, h\<lparr>index_m := Live ix\<rparr>))"
  proof (cases ?mk)
    case None
    then show ?thesis
      using assms by (simp add: loadIndex_def LoadIndex_def returns_to_caller_def)
  next
    case (Some ix0)
    obtain ok ix where b: "Index_LoadIndex L ix0 file_name = (ok, ix)"
      by (cases "Index_LoadIndex L ix0 file_name")
    show ?thesis
      using assms Some b
      by (cases ok) (simp_all add: loadIndex_def LoadIndex_def returns_to_caller_def)
  qed
  show "\<forall>ix0 ix. ?mk = Some ix0 \<and> Index_LoadIndex L ix0 file_name = (False, ix) \<longrightarrow>
       loadIndex L h file_name = (Inl UncaughtException, h\<lparr>index_m := Live ix\<rparr>)"
    using assms by (simp add: loadIndex_def LoadIndex_def)
  show "?mk = None \<longrightarrow> loadIndex L h file_name = (Inl UncaughtException, delete_index h)"
    using assms by (simp add: loadIndex_def LoadIndex_def)
qed

theorem createIndex_outcomes_witness:
  "IsDistFloat (fresh_handle kDataVector) \<and> index_m (fresh_handle kDataVector) \<noteq> Deleted \<and>
   returns_to_caller (fst (createIndex seq_lib (fresh_handle kDataVector) [])) \<and>
   createIndex seq_lib (fresh_handle kDataVector) [] =
     (Inr Py_None, (fresh_handle kDataVector)\<lparr>index_m := Live Built\<rparr>) \<and>
   loadIndex seq_lib (fresh_handle kDataVector) ''missing.bin'' =
     (Inl UncaughtException, (fresh_handle kDataVector)\<lparr>index_m := Live HalfBuilt\<rparr>)"
proof -
  let ?h = "fresh_handle kDataVector"
  have a: "IsDistFloat ?h" "index_m ?h \<noteq> Deleted"
    by (simp_all add: IsDistFloat_def fresh_handle_def)
  have r: "returns_to_caller (fst (createIndex seq_lib ?h []))"
    by code_simp
  have m: "CreateMethod seq_lib (method_name_m ?h) (space_type_m ?h) (space_m ?h) (data_m ?h) =
      Some Constructed"
    "Index_LoadIndex seq_lib Constructed ''missing.bin'' = (False, HalfBuilt)"
    "Index_CreateIndex seq_lib Constructed [] = (True, Built)"
    by (simp_all add: seq_lib_def fresh_handle_def)
  note t = createIndex_outcomes [OF a, of seq_lib "[]" "''missing.bin''"]
  have c: "createIndex seq_lib ?h [] = (Inr Py_None, ?h\<lparr>index_m := Live Built\<rparr>)"
    by code_simp
  have l: "loadIndex seq_lib ?h ''missing.bin'' =
      (Inl UncaughtException, ?h\<lparr>index_m := Live HalfBuilt\<rparr>)"
    using t m by blast
  show ?thesis
    using a r c l by simp
qed

text \<open>
  C4 as stated fails: the index pointer is transferred before the build (the load), and
  nothing discards the new index when the build (the load) throws. On a fresh handle, at
  the moment the exception of a failed build or load leaves the call, the handle refers to
  the half-built index.
\<close>

theorem createIndex_failed_counterexample:
  "createIndex seq_lib (fresh_handle kDataVector) [PyString ''bad''] =
     (Inl UncaughtException, (fresh_handle kDataVector)\<lparr>index_m := Live HalfBuilt\<rparr>) \<and>
   CreateIndex seq_lib (fresh_handle kDataVector) [''bad''] =
     (Inl UncaughtException, (fresh_handle kDataVector)\<lparr>index_m := Live HalfBuilt\<rparr>) \<and>
   loadIndex seq_lib (fresh_handle kDataVector) ''missing.bin'' =
     (Inl UncaughtException, (fresh_handle kDataVector)\<lparr>index_m := Live HalfBuilt\<rparr>) \<and>
   Index_CreateIndex seq_lib Constructed [''bad''] = (False, HalfBuilt)"
  by code_simp

text \<open>
  C5: for a batch of \<open>num_vec\<close> query vectors and \<open>k \<ge> 1\<close>, \<open>knnQueryBatch\<close> returns an array
  of \<open>num_vec\<close> rows and \<open>k\<close> columns. The row of a query is the list the workers stored for
  it, cut to \<open>k\<close> entries and followed by zeros up to \<open>k\<close>: a list of length \<open>m < k\<close> fills
  the first \<open>m\<close> entries in order, the other \<open>k - m\<close> are zero, and the call does not fail.
\<close>

theorem knnQueryBatch_matrix:
  assumes "1 \<le> k" and "k < 2 ^ 31" and "IsDistFloat h" and "float32_matrix dat"
    and "KnnQueryBatch L h num_threads k (query_objects_of dat) sched = Some (Inr res)"
  shows "knnQueryBatch L h num_threads k dat sched =
      Some (Inr (PyIntArray2
        (map (\<lambda>ids. take (nat k) ids @ replicate (nat k - length ids) 0) res)), h) \<and>
    length res = length (rows dat)"
proof -
  have len: "length res = PyArray_DIM dat 0"
    using KnnQueryBatch_length [OF assms(5)] by (simp add: length_query_objects_of)
  have dim: "PyArray_DIM dat 0 = length (rows dat)"
    using assms(4) by (simp add: float32_matrix_def PyArray_DIM_def)
  have k64: "k < 2 ^ 64"
    using assms(2) by simp
  have "copy_rows res k (replicate (length res) (replicate (nat k) 0)) =
      map (\<lambda>ids. take (nat k) ids @ replicate (nat k - length ids) 0) res"
    using assms(1) k64 by (intro copy_rows_zero) simp_all
  then show ?thesis
    using assms len dim
    by (simp add: knnQueryBatch_def knnQueryBatch_T_def float32_matrix_def PyArray_FromDims_def
        Let_def)
qed

theorem knnQueryBatch_matrix_witness:
  "(1::int) \<le> 3 \<and> (3::int) < 2 ^ 31 \<and> IsDistFloat built_handle \<and>
   float32_matrix (float32_array 1 [[0]]) \<and>
   KnnQueryBatch seq_lib built_handle 1 3 (query_objects_of (float32_array 1 [[0]]))
       [0, 0, 0, 0, 0, 0] = Some (Inr [[7, 8]]) \<and>
   knnQueryBatch seq_lib built_handle 1 3 (float32_array 1 [[0]]) [0, 0, 0, 0, 0, 0] =
     Some (Inr (PyIntArray2 [[7, 8, 0]]), built_handle)"
proof -
  have a: "(1::int) \<le> 3" "(3::int) < 2 ^ 31" "IsDistFloat built_handle"
    "float32_matrix (float32_array 1 [[0]])"
    by (simp_all add: IsDistFloat_def built_handle_def float32_matrix_def float32_array_def)
  have b: "KnnQueryBatch seq_lib built_handle 1 3 (query_objects_of (float32_array 1 [[0]]))
      [0, 0, 0, 0, 0, 0] = Some (Inr [[7, 8]])"
    by code_simp
  have n: "nat 3 = Suc (Suc (Suc 0))"
    by simp
  from knnQueryBatch_matrix [OF a b] show ?thesis
    using a b by (simp add: n)
qed

text \<open>
  C6: for \<open>k < 1\<close>, \<open>knnQuery\<close> and \<open>knnQueryBatch\<close> raise the error "k should be >=1"
  whatever the handle, its index and the other arguments are, and leave the handle as it
  was.
\<close>

theorem knn_k_below_one:
  "k < 1 \<Longrightarrow>
     knnQuery L rnd h k dat = (Inl (ValueError (KShouldBeGE1 k)), h) \<and>
     knnQueryBatch L h num_threads k arr sched = Some (Inl (ValueError (KShouldBeGE1 k)), h)"
  by (simp add: knnQuery_def knnQueryBatch_def)

theorem knn_k_below_one_witness:
  "(0::int) < 1 \<and>
   knnQuery seq_lib id (fresh_handle kDataVector) 0 (PyList [PyFloat 1]) =
     (Inl (ValueError (KShouldBeGE1 0)), fresh_handle kDataVector) \<and>
   knnQueryBatch seq_lib (fresh_handle kDataVector) 2 0 (float32_array 1 [[1]]) [0, 1] =
     Some (Inl (ValueError (KShouldBeGE1 0)), fresh_handle kDataVector)"
  using knn_k_below_one [of 0 seq_lib id "fresh_handle kDataVector" "PyList [PyFloat 1]" 2
      "float32_array 1 [[1]]" "[0, 1]"]
  by simp

text \<open>
  C7, as amended: on a handle holding \<open>count\<close> points, \<open>getDataPoint\<close> at position \<open>p\<close>
  fails with the out-of-range error exactly when \<open>p < 0\<close> or \<open>p \<ge> count\<close>. For \<open>p\<close> in
  \<open>[0, count)\<close> it returns the components of the point stored at \<open>p\<close> when the data type
  of the handle is VECTOR, and fails with "unknown data type" when it is not.
\<close>

theorem getDataPoint_range:
  "IsDistFloat h \<Longrightarrow>
     (fst (getDataPoint h p) = Inl (ValueError (DataPointIndexOutOfRange (GetDataPointQty h)))
        \<longleftrightarrow> p < 0 \<or> int (GetDataPointQty h) \<le> p) \<and>
     (0 \<le> p \<and> p < int (GetDataPointQty h) \<longrightarrow>
        getDataPoint h p =
          (if GetDataType h = kDataVector
             then Inr (PyList (map PyFloat (data (data_m h ! nat p))))
           else Inl (ValueError (UnknownDataType (GetDataType h))), h))"
  by (auto simp: getDataPoint_def getDataPoint_T_def NMSLIB_DATA_WRITERS_def GetDataPoint_def
      GetDataPointQty_def writeVector_data)

theorem getDataPoint_range_witness:
  "IsDistFloat built_handle \<and>
   fst (getDataPoint built_handle 2) = Inl (ValueError (DataPointIndexOutOfRange 2)) \<and>
   fst (getDataPoint built_handle (- 1)) = Inl (ValueError (DataPointIndexOutOfRange 2)) \<and>
   getDataPoint built_handle 1 = (Inr (PyList [PyFloat 1]), built_handle)"
proof -
  have a: "IsDistFloat built_handle"
    by (simp add: IsDistFloat_def built_handle_def)
  have q: "GetDataPointQty built_handle = 2" "GetDataType built_handle = kDataVector"
    "data_m built_handle ! Suc 0 = \<lparr>obj_id = 8, label = - 1, data = [1]\<rparr>"
    by (simp_all add: GetDataPointQty_def GetDataType_def built_handle_def)
  from getDataPoint_range [OF a, of 2] getDataPoint_range [OF a, of "- 1"]
    getDataPoint_range [OF a, of 1]
  show ?thesis
    using a by (simp add: q)
qed

text \<open>
  C7 as stated fails on a handle made for the data type STRING: a batch of points
  can be added to it, and \<open>getDataPoint\<close> at the valid position 0 then fails.
\<close>

theorem getDataPoint_string_counterexample:
  "init seq_lib ''l2'' [] ''seq_search'' kDataString kDistFloat = Inr (fresh_handle kDataString) \<and>
   addDataPointBatch (fresh_handle kDataString) (int32_array [1]) (float32_array 1 [[1]]) =
     (Inr Py_None,
      (fresh_handle kDataString)\<lparr>data_m := [\<lparr>obj_id = 1, label = - 1, data = [1]\<rparr>]\<rparr>) \<and>
   getDataPointQty ((fresh_handle kDataString)\<lparr>data_m := [\<lparr>obj_id = 1, label = - 1, data = [1]\<rparr>]\<rparr>) =
     (Inr (PyInt 1),
      (fresh_handle kDataString)\<lparr>data_m := [\<lparr>obj_id = 1, label = - 1, data = [1]\<rparr>]\<rparr>) \<and>
   getDataPoint ((fresh_handle kDataString)\<lparr>data_m := [\<lparr>obj_id = 1, label = - 1, data = [1]\<rparr>]\<rparr>) 0 =
     (Inl (ValueError (UnknownDataType 2)),
      (fresh_handle kDataString)\<lparr>data_m := [\<lparr>obj_id = 1, label = - 1, data = [1]\<rparr>]\<rparr>)"
  by code_simp




text \<open>
  C9: with \<open>k \<ge> 1\<close> and \<open>num_threads \<le> 0\<close>, \<open>knnQueryBatch\<close> does not fail: the list of
  threads is empty, whatever the schedule no step changes the state the batch starts in (no
  query is taken from the queue), and the call returns the array of \<open>num_vec\<close> rows and \<open>k\<close>
  columns with every entry zero. This holds whether or not an index has been built.
\<close>

theorem knnQueryBatch_no_threads:
  assumes "1 \<le> k" and "IsDistFloat h" and "float32_matrix dat" and "num_threads \<le> 0"
  shows "knnQueryBatch L h num_threads k dat sched =
      Some (Inr (PyIntArray2 (replicate (length (rows dat)) (replicate (nat k) 0))), h) \<and>
    threads (batch_start num_threads (query_objects_of dat) :: 'd batch) = [] \<and>
    run_threads L h k sched (batch_start num_threads (query_objects_of dat)) =
      (batch_start num_threads (query_objects_of dat) :: 'd::linorder batch)"
proof -
  let ?s = "batch_start num_threads (query_objects_of dat) :: 'd batch"
  have t: "threads ?s = []"
    using assms(4) by (simp add: batch_start_def)
  have r: "run_threads L h k sched ?s = ?s"
    using t by (rule run_threads_none)
  have "knnQueryBatch_T L h num_threads k dat sched =
      Some (Inr (PyIntArray2 (replicate (length (rows dat)) (replicate (nat k) 0))))"
    using assms(1,3,4) by (rule KnnQueryBatch_T_no_threads)
  then have "knnQueryBatch L h num_threads k dat sched =
      Some (Inr (PyIntArray2 (replicate (length (rows dat)) (replicate (nat k) 0))), h)"
    using assms(1,2) by (simp add: knnQueryBatch_def)
  then show ?thesis
    using t r by simp
qed

theorem knnQueryBatch_no_threads_witness:
  "(1::int) \<le> 2 \<and> IsDistFloat built_handle \<and> float32_matrix (float32_array 1 [[0], [1]]) \<and>
   (0::int) \<le> 0 \<and>
   knnQueryBatch seq_lib built_handle 0 2 (float32_array 1 [[0], [1]]) [0, 1] =
     Some (Inr (PyIntArray2 [[0, 0], [0, 0]]), built_handle)"
proof -
  have a: "(1::int) \<le> 2" "IsDistFloat built_handle" "float32_matrix (float32_array 1 [[0], [1]])"
    "(0::int) \<le> 0"
    by (simp_all add: IsDistFloat_def built_handle_def float32_matrix_def float32_array_def)
  have n: "nat 2 = Suc (Suc 0)" "replicate 2 (0::int) = [0, 0]"
    by (simp_all add: numeral_2_eq_2)
  from knnQueryBatch_no_threads [OF a, of seq_lib "[0, 1]"] show ?thesis
    using a by (simp add: n float32_array_def)
qed

text \<open>
  C10, as amended: on a handle whose data type is VECTOR, \<open>addDataPoint\<close> with a list of
  floats appends in every state of the index pointer, built or not: it returns \<open>None\<close>,
  the number of points grows by one, the index pointer is untouched, and \<open>getDataPoint\<close>
  at every position that was valid before returns what it returned before. On a handle
  of another data type it fails with "unknown data type" and changes nothing.
\<close>

theorem addDataPoint_appends:
  assumes "IsDistFloat h"
  shows "addDataPoint rnd h ident (PyList (map PyFloat v)) =
      (if GetDataType h = kDataVector
         then (Inr Py_None,
               h\<lparr>data_m := data_m h @ [\<lparr>obj_id = ident, label = - 1, data = map rnd v\<rparr>]\<rparr>)
       else (Inl (ValueError (UnknownDataType (GetDataType h))), h)) \<and>
    (GetDataType h = kDataVector \<longrightarrow>
       GetDataPointQty (snd (addDataPoint rnd h ident (PyList (map PyFloat v)))) =
         GetDataPointQty h + 1 \<and>
       (\<forall>p. 0 \<le> p \<and> p < int (GetDataPointQty h) \<longrightarrow>
          fst (getDataPoint (snd (addDataPoint rnd h ident (PyList (map PyFloat v)))) p) =
          fst (getDataPoint h p)))"
  using assms
  by (auto simp: addDataPoint_def addDataPoint_T_def NMSLIB_DATA_READERS_def readVector_floats
      AddDataPoint_def GetDataPointQty_def getDataPoint_def getDataPoint_T_def GetDataPoint_def
      GetDataType_def IsDistFloat_def nth_append split: option.splits)

theorem addDataPoint_appends_witness:
  "IsDistFloat built_handle \<and>
   addDataPoint id built_handle 9 (PyList (map PyFloat [2])) =
     (Inr Py_None,
      built_handle\<lparr>data_m := data_m built_handle @ [\<lparr>obj_id = 9, label = - 1, data = [2]\<rparr>]\<rparr>)"
proof -
  have a: "IsDistFloat built_handle"
    by (simp add: IsDistFloat_def built_handle_def)
  have q: "GetDataType built_handle = kDataVector"
    by (simp add: GetDataType_def built_handle_def)
  from addDataPoint_appends [OF a, of id 9 "[2]"] show ?thesis
    using a q by simp
qed

text \<open>
  C10 as stated fails on a handle made for the data type STRING: \<open>addDataPoint\<close>
  with a list of floats fails and stores nothing.
\<close>

theorem addDataPoint_string_counterexample:
  "init seq_lib ''l2'' [] ''seq_search'' kDataString kDistFloat = Inr (fresh_handle kDataString) \<and>
   addDataPoint id (fresh_handle kDataString) 1 (PyList [PyFloat 1, PyFloat 2]) =
     (Inl (ValueError (UnknownDataType 2)), fresh_handle kDataString) \<and>
   getDataPointQty (fresh_handle kDataString) = (Inr (PyInt 0), fresh_handle kDataString)"
  by code_simp

end
